theory Spec2Isabelle
  imports Main "HOL-Library.AList"
begin

section \<open>Strings\<close>

text \<open>
  A JavaScript string is a sequence of UTF-16 code units. A code unit is modelled by its
  number, so that the character classes of the regular expressions of \<^verbatim>\<open>lib.ts\<close>
  (\<^verbatim>\<open>\s\<close>, \<^verbatim>\<open>[^a-zA-Z0-9 ]\<close>) are the classes of the language. String literals of
  the source are written \<open>js ''...''\<close>.
\<close>

type_synonym jschar = nat
type_synonym jsstring = "jschar list"

definition js :: "string \<Rightarrow> jsstring" where
  "js s = map of_char s"

text \<open>\<^verbatim>\<open>str.startsWith(p)\<close> and \<^verbatim>\<open>str.endsWith(p)\<close>.\<close>

definition startsWith :: "jsstring \<Rightarrow> jsstring \<Rightarrow> bool" where
  "startsWith str p = (take (length p) str = p)"

definition endsWith :: "jsstring \<Rightarrow> jsstring \<Rightarrow> bool" where
  "endsWith str p = (length p \<le> length str \<and> drop (length str - length p) str = p)"

text \<open>
  \<^verbatim>\<open>str.split(sep)\<close> for a separator of one code unit: the pieces between the
  separators, in order; a string without separator is its only piece.
\<close>

fun split :: "jschar \<Rightarrow> jsstring \<Rightarrow> jsstring list" where
  "split sep [] = [[]]"
| "split sep (c # cs) =
     (if c = sep then [] # split sep cs
      else (case split sep cs of
              [] \<Rightarrow> [[c]]
            | p # ps \<Rightarrow> (c # p) # ps))"

text \<open>
  \<^verbatim>\<open>str.padStart(targetLength, padString)\<close>: a string already long enough, or an
  empty pad, gives the string back; otherwise the pad is repeated and cut to the missing
  length.
\<close>

definition padStart :: "nat \<Rightarrow> jsstring \<Rightarrow> jsstring \<Rightarrow> jsstring" where
  "padStart targetLength padString str =
     (if targetLength \<le> length str \<or> padString = [] then str
      else take (targetLength - length str)
             (concat (replicate (targetLength - length str) padString)) @ str)"

text \<open>
  The class \<^verbatim>\<open>\s\<close> of a regular expression without the unicode flag: the white
  space and line terminator code points of ECMAScript (TAB, LF, VT, FF, CR, SPACE, NBSP,
  U+1680, U+2000 to U+200A, U+2028, U+2029, U+202F, U+205F, U+3000, U+FEFF).
\<close>

definition isWhiteSpace :: "jschar \<Rightarrow> bool" where
  "isWhiteSpace c =
     (c = 9 \<or> c = 10 \<or> c = 11 \<or> c = 12 \<or> c = 13 \<or> c = 32 \<or> c = 160 \<or> c = 5760
      \<or> (8192 \<le> c \<and> c \<le> 8202) \<or> c = 8232 \<or> c = 8233 \<or> c = 8239 \<or> c = 8287
      \<or> c = 12288 \<or> c = 65279)"

text \<open>The class \<^verbatim>\<open>[a-zA-Z0-9 ]\<close>, whose complement the second replace removes.\<close>

definition isAllowed :: "jschar \<Rightarrow> bool" where
  "isAllowed c =
     ((97 \<le> c \<and> c \<le> 122) \<or> (65 \<le> c \<and> c \<le> 90) \<or> (48 \<le> c \<and> c \<le> 57) \<or> c = 32)"

text \<open>\<^verbatim>\<open>.replace(/\s+/g, " ")\<close>: every maximal run of white space becomes one space.\<close>

function collapseWhitespace :: "jsstring \<Rightarrow> jsstring" where
  "collapseWhitespace [] = []"
| "collapseWhitespace (c # cs) =
     (if isWhiteSpace c then 32 # collapseWhitespace (dropWhile isWhiteSpace cs)
      else c # collapseWhitespace cs)"
  by pat_completeness auto
termination
  by (relation "measure length") (auto simp: length_dropWhile_le less_Suc_eq_le)

text \<open>\<^verbatim>\<open>.replace(/[^a-zA-Z0-9 ]/g, "")\<close>.\<close>

definition stripDisallowed :: "jsstring \<Rightarrow> jsstring" where
  "stripDisallowed s = filter isAllowed s"

text \<open>
  The chain \<^verbatim>\<open>.replace(/\s+/g, " ").replace(/[^a-zA-Z0-9 ]/g, "")\<close> that
  \<^verbatim>\<open>calculateTargetPath\<close> applies to the title, the creator and the series.
\<close>

definition sanitize :: "jsstring \<Rightarrow> jsstring" where
  "sanitize s = stripDisallowed (collapseWhitespace s)"

section \<open>Numbers\<close>

text \<open>
  \<^verbatim>\<open>seriesIndex\<close> is a JavaScript number. The program only produces one with
  \<^verbatim>\<open>parseFloat\<close> and only consumes it with \<^verbatim>\<open>toString\<close>, and both work on
  decimal digits. A finite number is therefore kept as what \<^verbatim>\<open>Number::toString\<close>
  of ECMAScript starts from: its sign, the integer \<open>s\<close> of its shortest decimal digits and
  the position \<open>n\<close> of the decimal point, the value being \<open>s * 10 ^ (n - k)\<close> for \<open>k\<close>
  the number of digits of \<open>s\<close>; \<open>s = 0\<close> is zero. The flag of \<open>Infinity\<close> and of
  \<open>Finite\<close> is the minus sign.
\<close>

datatype jsnum = NaN | Infinity bool | Finite bool nat int

definition isDigit :: "jschar \<Rightarrow> bool" where
  "isDigit c = (48 \<le> c \<and> c \<le> 57)"

fun decimalDigits :: "nat \<Rightarrow> jsstring" where
  "decimalDigits m =
     (if m < 10 then [48 + m] else decimalDigits (m div 10) @ [48 + m mod 10])"

declare decimalDigits.simps [simp del]

text \<open>
  \<^verbatim>\<open>Number.prototype.toString()\<close>, radix 10, by the cases of ECMAScript's
  \<^verbatim>\<open>Number::toString\<close>: plain digits with trailing zeros, digits with a decimal
  point, a leading \<^verbatim>\<open>0.\<close>, and the exponent notation outside \<open>-6 < n \<le> 21\<close>.
\<close>

definition numberToString :: "jsnum \<Rightarrow> jsstring" where
  "numberToString x =
     (case x of
        NaN \<Rightarrow> js ''NaN''
      | Infinity neg \<Rightarrow> (if neg then js ''-Infinity'' else js ''Infinity'')
      | Finite neg s n \<Rightarrow>
          if s = 0 then js ''0''
          else (if neg then js ''-'' else []) @
            (let ds = decimalDigits s; k = int (length ds) in
             if k \<le> n \<and> n \<le> 21 then ds @ replicate (nat (n - k)) 48
             else if 0 < n \<and> n \<le> 21 then take (nat n) ds @ js ''.'' @ drop (nat n) ds
             else if - 6 < n \<and> n \<le> 0 then js ''0.'' @ replicate (nat (- n)) 48 @ ds
             else
               (let e = n - 1;
                    es = (if 0 \<le> e then js ''+'' else js ''-'') @ decimalDigits (nat \<bar>e\<bar>)
                in if k = 1 then ds @ js ''e'' @ es
                   else take 1 ds @ js ''.'' @ drop 1 ds @ js ''e'' @ es)))"

text \<open>The value of a string of decimal digits.\<close>

definition digitsValue :: "jsstring \<Rightarrow> nat" where
  "digitsValue ds = foldl (\<lambda>acc d. 10 * acc + (d - 48)) 0 ds"

text \<open>
  The number with the decimal digits \<open>ip\<close> before and \<open>fp\<close> after the decimal point,
  times \<open>10 ^ e\<close>. The digits are taken exactly: the runtime rounds to the nearest double,
  which gives the same number for up to 15 significant digits within the range of
  doubles.
\<close>

definition mkFinite :: "bool \<Rightarrow> jsstring \<Rightarrow> jsstring \<Rightarrow> int \<Rightarrow> jsnum" where
  "mkFinite neg ip fp e =
     (let allDigits = ip @ fp;
          significant = dropWhile (\<lambda>d. d = 48) allDigits;
          z = length allDigits - length significant;
          shortest = rev (dropWhile (\<lambda>d. d = 48) (rev significant))
      in if shortest = [] then Finite neg 0 0
         else Finite neg (digitsValue shortest) (int (length ip) + e - int z))"

text \<open>
  The \<^verbatim>\<open>ExponentPart\<close> of a \<^verbatim>\<open>StrDecimalLiteral\<close> at the head of the rest of
  the string: \<^verbatim>\<open>e\<close> or \<^verbatim>\<open>E\<close>, an optional sign, and at least one digit;
  anything else is no exponent.
\<close>

definition exponentPart :: "jsstring \<Rightarrow> int" where
  "exponentPart r =
     (case r of
        [] \<Rightarrow> 0
      | c # r' \<Rightarrow>
          if c = 101 \<or> c = 69 then
            (case r' of
               [] \<Rightarrow> 0
             | d # r'' \<Rightarrow>
                 if d = 43 then
                   (if takeWhile isDigit r'' = [] then 0
                    else int (digitsValue (takeWhile isDigit r'')))
                 else if d = 45 then
                   (if takeWhile isDigit r'' = [] then 0
                    else - int (digitsValue (takeWhile isDigit r'')))
                 else if takeWhile isDigit r' = [] then 0
                 else int (digitsValue (takeWhile isDigit r')))
          else 0)"

text \<open>
  \<^verbatim>\<open>parseFloat(str)\<close>: leading white space is dropped, then the longest prefix that
  is a \<^verbatim>\<open>StrDecimalLiteral\<close> is read (a sign, then \<^verbatim>\<open>Infinity\<close>, or digits with
  an optional fraction and exponent, or a fraction starting with the point); when there
  is no such prefix the result is \<open>NaN\<close>.
\<close>

definition parseFloat :: "jsstring \<Rightarrow> jsnum" where
  "parseFloat str =
     (let t = dropWhile isWhiteSpace str;
          neg = (t \<noteq> [] \<and> hd t = 45);
          u = (if t \<noteq> [] \<and> (hd t = 43 \<or> hd t = 45) then tl t else t)
      in if startsWith u (js ''Infinity'') then Infinity neg
         else
           (let ip = takeWhile isDigit u;
                r1 = dropWhile isDigit u;
                hasPoint = (r1 \<noteq> [] \<and> hd r1 = 46);
                fp = (if hasPoint then takeWhile isDigit (tl r1) else []);
                r2 = (if hasPoint then dropWhile isDigit (tl r1) else r1)
            in if ip = [] \<and> fp = [] then NaN
               else mkFinite neg ip fp (exponentPart r2)))"

section \<open>The metadata parser\<close>

text \<open>
  The shape \<^verbatim>\<open>opfSchema\<close> validates, below \<^verbatim>\<open>package.metadata\<close>: the
  \<^verbatim>\<open>dc:identifier\<close> entries with their \<^verbatim>\<open>#text\<close> (a string or a number) and
  their optional \<^verbatim>\<open>opf:scheme\<close>, the optional \<^verbatim>\<open>dc:title\<close> and
  \<^verbatim>\<open>dc:creator\<close>, and the \<^verbatim>\<open>meta\<close> entries with \<^verbatim>\<open>name\<close> and
  \<^verbatim>\<open>content\<close>. An optional field that is missing is \<open>None\<close>.
\<close>

datatype textValue = TextString jsstring | TextNumber jsnum

record opfIdentifier =
  idText :: textValue
  opfScheme :: "jsstring option"

record metaEntry =
  metaName :: jsstring
  metaContent :: jsstring

record opfPackageMetadata =
  dcIdentifier :: "opfIdentifier list option"
  dcTitle :: "jsstring option"
  dcCreator :: "jsstring option"
  dcMeta :: "metaEntry list option"

text \<open>The interface \<^verbatim>\<open>OpfMetadata\<close>; its field \<^verbatim>\<open>id\<close> is \<open>ident\<close> here.\<close>

record OpfMetadata =
  ident :: "textValue option"
  title :: "jsstring option"
  creator :: "jsstring option"
  series :: "jsstring option"
  seriesIndex :: "jsnum option"

datatype error = InvalidOpfFormat

text \<open>\<^verbatim>\<open>arr?.find(p)\<close> on an optional array.\<close>

definition findOpt :: "('a \<Rightarrow> bool) \<Rightarrow> 'a list option \<Rightarrow> 'a option" where
  "findOpt p arr = (case arr of None \<Rightarrow> None | Some xs \<Rightarrow> find p xs)"

text \<open>\<^verbatim>\<open>arr?.[0]\<close> on an optional array: nothing for an empty one.\<close>

definition firstOpt :: "'a list option \<Rightarrow> 'a option" where
  "firstOpt arr = (case arr of None \<Rightarrow> None | Some [] \<Rightarrow> None | Some (x # _) \<Rightarrow> Some x)"

text \<open>\<^verbatim>\<open>a || b\<close> for two values that are an object or undefined.\<close>

definition orElse :: "'a option \<Rightarrow> 'a option \<Rightarrow> 'a option" where
  "orElse a b = (case a of None \<Rightarrow> b | Some x \<Rightarrow> Some x)"

text \<open>
  \<^verbatim>\<open>parseOpf\<close>. Parsing the markup (\<^verbatim>\<open>xmlParser.parse\<close>) and validating its
  shape (\<^verbatim>\<open>opfSchema.safeParse\<close>) are library code: the argument is their outcome,
  \<open>None\<close> when the validation fails and \<^verbatim>\<open>validation.data.package.metadata\<close>
  otherwise. The function throws on the former.
\<close>

definition parseOpf :: "opfPackageMetadata option \<Rightarrow> error + OpfMetadata" where
  "parseOpf validation =
     (case validation of
        None \<Rightarrow> Inl InvalidOpfFormat
      | Some metadata \<Rightarrow>
          (let identifiers =
                 orElse (findOpt (\<lambda>i. opfScheme i = Some (js ''uuid'')) (dcIdentifier metadata))
                   (orElse
                      (findOpt (\<lambda>i. opfScheme i = Some (js ''calibre'')) (dcIdentifier metadata))
                      (firstOpt (dcIdentifier metadata)));
               seriesEntry =
                 findOpt (\<lambda>m. metaName m = js ''calibre:series'') (dcMeta metadata);
               seriesIndexEntry =
                 findOpt (\<lambda>m. metaName m = js ''calibre:series_index'') (dcMeta metadata);
               seriesIndexValue = map_option (\<lambda>m. parseFloat (metaContent m)) seriesIndexEntry
           in Inr \<lparr> ident = map_option idText identifiers,
                    title = dcTitle metadata,
                    creator = dcCreator metadata,
                    series = map_option metaContent seriesEntry,
                    seriesIndex = seriesIndexValue \<rparr>))"

section \<open>The path policy\<close>

text \<open>
  \<^verbatim>\<open>x?.replace(/\s+/g, " ").replace(/[^a-zA-Z0-9 ]/g, "") || fallback\<close>: the
  fallback stands in when \<open>x\<close> is undefined and when the replaced string is empty, the
  empty string being falsy.
\<close>

definition sanitizedOr :: "jsstring option \<Rightarrow> jsstring \<Rightarrow> jsstring" where
  "sanitizedOr x fallback =
     (case x of
        None \<Rightarrow> fallback
      | Some s \<Rightarrow> if sanitize s = [] then fallback else sanitize s)"

definition calculateTargetPath :: "OpfMetadata \<Rightarrow> jsstring \<times> jsstring" where
  "calculateTargetPath metadata =
     (case (series metadata, seriesIndex metadata) of
        (Some s, Some idx) \<Rightarrow>
          if s = [] then
            (let effectiveTitle = sanitizedOr (title metadata) (js ''Unknown Title'');
                 effectiveCreator = sanitizedOr (creator metadata) (js ''Unknown Creator'');
                 fileName = effectiveTitle @ js '' - '' @ effectiveCreator
             in (fileName, fileName @ js ''.epub''))
          else
            (let seriesName = sanitize s;
                 seriesIndexLabel = padStart 2 (js ''0'') (numberToString idx);
                 fileName = seriesName @ js '' - '' @ seriesIndexLabel
             in (seriesName, fileName @ js ''.epub''))
      | _ \<Rightarrow>
          (let effectiveTitle = sanitizedOr (title metadata) (js ''Unknown Title'');
               effectiveCreator = sanitizedOr (creator metadata) (js ''Unknown Creator'');
               fileName = effectiveTitle @ js '' - '' @ effectiveCreator
           in (fileName, fileName @ js ''.epub'')))"

text \<open>
  The identifiers of a validated document, none when \<^verbatim>\<open>dc:identifier\<close> is
  missing.
\<close>

definition identifiersOf :: "opfPackageMetadata \<Rightarrow> opfIdentifier list" where
  "identifiersOf m = (case dcIdentifier m of None \<Rightarrow> [] | Some xs \<Rightarrow> xs)"

text \<open>
  The number whose value is the natural number \<open>m\<close>, for \<open>m\<close> up to \<open>2 ^ 53\<close>: its
  digits without the trailing zeros, and the decimal point after all its digits. Up to
  \<open>2 ^ 53\<close> every whole number is a double and no shorter digit string reads as the same
  double; a larger whole number need not be a double, and the function stands for no
  number there.
\<close>

fun stripTrailingZeros :: "nat \<Rightarrow> nat" where
  "stripTrailingZeros m =
     (if m \<noteq> 0 \<and> m mod 10 = 0 then stripTrailingZeros (m div 10) else m)"

declare stripTrailingZeros.simps [simp del]

definition numberOfNat :: "nat \<Rightarrow> jsnum" where
  "numberOfNat m =
     (if m = 0 then Finite False 0 0
      else Finite False (stripTrailingZeros m) (int (length (decimalDigits m))))"

section \<open>The file system\<close>

text \<open>
  The program works on two directory trees, \<^verbatim>\<open>inDir\<close> and \<^verbatim>\<open>outDir\<close> of
  \<^verbatim>\<open>env.ts\<close>, through the calls of \<^verbatim>\<open>node:fs/promises\<close>. The world below is
  what these calls read and change.

  The source tree has the three levels \<^verbatim>\<open>readSourceFiles\<close> walks: the entries of
  \<^verbatim>\<open>inDir\<close>, the entries of each author folder, and the entries of each book folder.
  A regular file of a book folder has an inode and a content; the content is kept as the
  outcome of \<^verbatim>\<open>xmlParser.parse\<close> and \<^verbatim>\<open>opfSchema.safeParse\<close> on its text, the
  argument of \<open>parseOpf\<close>.

  The target tree has the two levels \<^verbatim>\<open>getFilesInTargetDir\<close> walks: the entries of
  \<^verbatim>\<open>outDir\<close>, and the entries of each of its directories. A directory lists its
  entries in the order \<^verbatim>\<open>readdir\<close> gives them. The two trees are disjoint.
\<close>

type_synonym inode = nat

datatype bookFolderEntry = SourceFile inode "opfPackageMetadata option" | OtherBookEntry

datatype authorFolderEntry = BookFolder "(jsstring \<times> bookFolderEntry) list" | OtherAuthorEntry

datatype sourceRootEntry = AuthorFolder "(jsstring \<times> authorFolderEntry) list" | OtherRootEntry

datatype directoryEntry = RegularFile inode | Subdirectory

datatype targetRootEntry = RootFile inode | RootDirectory "(jsstring \<times> directoryEntry) list"

text \<open>
  The places of the target tree: its root, an entry of the root, and an entry of a
  directory of the root.
\<close>

datatype location = TargetRoot | RootLevel jsstring | InDirectory jsstring jsstring

text \<open>
  The calls that meet the file system after the trees are read. An error is what the
  promise of a call is rejected with; the program reads none of them, it only tells
  failure from success.
\<close>

datatype syscall = Stat jsstring | Mkdir jsstring | Unlink jsstring | Link jsstring jsstring

datatype errno =
  ENOENT | EEXIST | EISDIR | ENOTDIR | EACCES | EPERM | ENAMETOOLONG | EXDEV | EROFS | EIO

text \<open>
  The link count of an inode is the number of its entries in both trees, plus
  \<open>otherLinks\<close>, its links from elsewhere. The link count of a directory depends on the
  file system (two plus the number of its subdirectories on most, one on some):
  \<open>directoryLinkCount\<close> gives it for every place of the target tree.

  \<open>faults\<close> gives, for a call, the error that comes from outside of the two trees, if
  there is one: a missing permission, a name that is too long, a target on another device,
  a read-only file system. A call with such an error fails with it and changes nothing;
  a call without one ends as the trees dictate. The error is a function of the call, the
  same during a pass and from one pass to the next.

  \<open>calls\<close> records, in order, every call that can change the file system, with its
  outcome: the error, or none when the call succeeded. The reads (\<^verbatim>\<open>readdir\<close>,
  \<^verbatim>\<open>readFile\<close>) are taken to give the trees as they are; when a \<^verbatim>\<open>readdir\<close>
  fails, \<^verbatim>\<open>syncFiles\<close> is rejected before its first loop and changes nothing, and
  such a pass is not modelled.
\<close>

record world =
  inDir :: jsstring
  outDir :: jsstring
  sourceTree :: "(jsstring \<times> sourceRootEntry) list"
  targetTree :: "(jsstring \<times> targetRootEntry) list"
  otherLinks :: "inode \<Rightarrow> nat"
  directoryLinkCount :: "location \<Rightarrow> nat"
  faults :: "syscall \<Rightarrow> errno option"
  calls :: "(syscall \<times> errno option) list"

subsection \<open>Paths\<close>

text \<open>
  A path below the target root is resolved as the operating system does: it is cut at
  the separators, and empty pieces (a doubled or a trailing separator) do not count. The
  model covers the target root, its entries and the entries of its directories; any
  other path, and a path through \<^verbatim>\<open>.\<close> or \<^verbatim>\<open>..\<close>, is outside of it and
  resolves to nothing. The paths \<^verbatim>\<open>linkFile\<close> and \<^verbatim>\<open>syncFiles\<close> build are
  inside: the target root, a separator, a directory name from \<^verbatim>\<open>calculateTargetPath\<close>
  or \<^verbatim>\<open>readdir\<close>, and for a file a separator and a file name.
\<close>

definition pathNames :: "jsstring \<Rightarrow> jsstring list" where
  "pathNames rest = filter (\<lambda>piece. piece \<noteq> []) (split 47 rest)"

definition resolve :: "world \<Rightarrow> jsstring \<Rightarrow> location option" where
  "resolve w path =
     (let rest = drop (length (outDir w)) path
      in if startsWith path (outDir w) \<and> (rest = [] \<or> hd rest = 47)
            \<and> js ''.'' \<notin> set (pathNames rest) \<and> js ''..'' \<notin> set (pathNames rest)
         then (case pathNames rest of
                 [] \<Rightarrow> Some TargetRoot
               | [x] \<Rightarrow> Some (RootLevel x)
               | [d, f] \<Rightarrow> Some (InDirectory d f)
               | _ \<Rightarrow> None)
         else None)"

text \<open>
  The paths of the regular files of the book folders, as \<^verbatim>\<open>readSourceFiles\<close> builds
  them, with their inodes.
\<close>

definition bookFolderFiles ::
  "jsstring \<Rightarrow> (jsstring \<times> bookFolderEntry) list \<Rightarrow> (jsstring \<times> inode) list" where
  "bookFolderFiles bookPath bookFiles =
     concat (map (\<lambda>(fileName, file).
       case file of
         SourceFile i content \<Rightarrow> [(bookPath @ js ''/'' @ fileName, i)]
       | OtherBookEntry \<Rightarrow> []) bookFiles)"

definition authorFolderFiles ::
  "jsstring \<Rightarrow> (jsstring \<times> authorFolderEntry) list \<Rightarrow> (jsstring \<times> inode) list" where
  "authorFolderFiles authorPath bookFolders =
     concat (map (\<lambda>(bookName, bookFolder).
       case bookFolder of
         BookFolder bookFiles \<Rightarrow> bookFolderFiles (authorPath @ js ''/'' @ bookName) bookFiles
       | OtherAuthorEntry \<Rightarrow> []) bookFolders)"

definition sourceInodes :: "world \<Rightarrow> (jsstring \<times> inode) list" where
  "sourceInodes w =
     concat (map (\<lambda>(authorName, authorFolder).
       case authorFolder of
         AuthorFolder bookFolders \<Rightarrow>
           authorFolderFiles (inDir w @ js ''/'' @ authorName) bookFolders
       | OtherRootEntry \<Rightarrow> []) (sourceTree w))"

subsection \<open>Link counts\<close>

definition directoryLinks :: "inode \<Rightarrow> (jsstring \<times> directoryEntry) list \<Rightarrow> nat" where
  "directoryLinks i entries = length (filter (\<lambda>(fileName, file). file = RegularFile i) entries)"

fun rootEntryLinks :: "inode \<Rightarrow> targetRootEntry \<Rightarrow> nat" where
  "rootEntryLinks i (RootFile j) = (if j = i then 1 else 0)"
| "rootEntryLinks i (RootDirectory entries) = directoryLinks i entries"

definition targetLinks :: "world \<Rightarrow> inode \<Rightarrow> nat" where
  "targetLinks w i = sum_list (map (\<lambda>(entryName, entry). rootEntryLinks i entry) (targetTree w))"

definition sourceLinks :: "world \<Rightarrow> inode \<Rightarrow> nat" where
  "sourceLinks w i = length (filter (\<lambda>(path, j). j = i) (sourceInodes w))"

definition nlinkOf :: "world \<Rightarrow> inode \<Rightarrow> nat" where
  "nlinkOf w i = targetLinks w i + sourceLinks w i + otherLinks w i"

subsection \<open>The calls of \<^verbatim>\<open>node:fs/promises\<close>\<close>

text \<open>
  \<^verbatim>\<open>stat(path)\<close>: the program reads \<^verbatim>\<open>nlink\<close> of the result and nothing else, so
  the result is the link count, or the error the promise is rejected with.
\<close>

definition stat :: "jsstring \<Rightarrow> world \<Rightarrow> errno + nat" where
  "stat path w =
     (case faults w (Stat path) of
        Some e \<Rightarrow> Inl e
      | None \<Rightarrow>
          (case resolve w path of
             None \<Rightarrow> Inl ENOENT
           | Some TargetRoot \<Rightarrow> Inr (directoryLinkCount w TargetRoot)
           | Some (RootLevel x) \<Rightarrow>
               (case map_of (targetTree w) x of
                  None \<Rightarrow> Inl ENOENT
                | Some (RootFile i) \<Rightarrow> Inr (nlinkOf w i)
                | Some (RootDirectory entries) \<Rightarrow> Inr (directoryLinkCount w (RootLevel x)))
           | Some (InDirectory d f) \<Rightarrow>
               (case map_of (targetTree w) d of
                  None \<Rightarrow> Inl ENOENT
                | Some (RootFile i) \<Rightarrow> Inl ENOTDIR
                | Some (RootDirectory entries) \<Rightarrow>
                    (case map_of entries f of
                       None \<Rightarrow> Inl ENOENT
                     | Some (RegularFile i) \<Rightarrow> Inr (nlinkOf w i)
                     | Some Subdirectory \<Rightarrow> Inr (directoryLinkCount w (InDirectory d f))))))"

text \<open>
  The two ends of a call that can change the file system: the error, or none, with the
  call and its outcome recorded.
\<close>

definition failure :: "syscall \<Rightarrow> errno \<Rightarrow> world \<Rightarrow> errno option \<times> world" where
  "failure c e w = (Some e, w\<lparr>calls := calls w @ [(c, Some e)]\<rparr>)"

definition success :: "syscall \<Rightarrow> world \<Rightarrow> errno option \<times> world" where
  "success c w = (None, w\<lparr>calls := calls w @ [(c, None)]\<rparr>)"

text \<open>
  \<^verbatim>\<open>mkdir(path, { recursive: true })\<close>: an existing directory is left as it is, a
  missing one is created with its missing parent, and a file in the way is an error. The
  first component of the result is the error, if any.
\<close>

definition mkdir :: "jsstring \<Rightarrow> world \<Rightarrow> errno option \<times> world" where
  "mkdir path w =
     (case faults w (Mkdir path) of
        Some e \<Rightarrow> failure (Mkdir path) e w
      | None \<Rightarrow>
          (case resolve w path of
             None \<Rightarrow> failure (Mkdir path) ENOENT w
           | Some TargetRoot \<Rightarrow> success (Mkdir path) w
           | Some (RootLevel d) \<Rightarrow>
               (case map_of (targetTree w) d of
                  None \<Rightarrow>
                    success (Mkdir path) (w\<lparr>targetTree := targetTree w @ [(d, RootDirectory [])]\<rparr>)
                | Some (RootDirectory entries) \<Rightarrow> success (Mkdir path) w
                | Some (RootFile i) \<Rightarrow> failure (Mkdir path) EEXIST w)
           | Some (InDirectory d x) \<Rightarrow>
               (case map_of (targetTree w) d of
                  None \<Rightarrow>
                    success (Mkdir path)
                      (w\<lparr>targetTree := targetTree w @ [(d, RootDirectory [(x, Subdirectory)])]\<rparr>)
                | Some (RootFile i) \<Rightarrow> failure (Mkdir path) ENOTDIR w
                | Some (RootDirectory entries) \<Rightarrow>
                    (case map_of entries x of
                       None \<Rightarrow>
                         success (Mkdir path)
                           (w\<lparr>targetTree :=
                              AList.update d (RootDirectory (entries @ [(x, Subdirectory)]))
                                (targetTree w)\<rparr>)
                     | Some Subdirectory \<Rightarrow> success (Mkdir path) w
                     | Some (RegularFile i) \<Rightarrow> failure (Mkdir path) EEXIST w))))"

text \<open>\<^verbatim>\<open>unlink(path)\<close>: removes the entry of a regular file.\<close>

definition unlink :: "jsstring \<Rightarrow> world \<Rightarrow> errno option \<times> world" where
  "unlink path w =
     (case faults w (Unlink path) of
        Some e \<Rightarrow> failure (Unlink path) e w
      | None \<Rightarrow>
          (case resolve w path of
             None \<Rightarrow> failure (Unlink path) ENOENT w
           | Some TargetRoot \<Rightarrow> failure (Unlink path) EISDIR w
           | Some (RootLevel x) \<Rightarrow>
               (case map_of (targetTree w) x of
                  None \<Rightarrow> failure (Unlink path) ENOENT w
                | Some (RootDirectory entries) \<Rightarrow> failure (Unlink path) EISDIR w
                | Some (RootFile i) \<Rightarrow>
                    success (Unlink path) (w\<lparr>targetTree := AList.delete x (targetTree w)\<rparr>))
           | Some (InDirectory d f) \<Rightarrow>
               (case map_of (targetTree w) d of
                  None \<Rightarrow> failure (Unlink path) ENOENT w
                | Some (RootFile i) \<Rightarrow> failure (Unlink path) ENOTDIR w
                | Some (RootDirectory entries) \<Rightarrow>
                    (case map_of entries f of
                       None \<Rightarrow> failure (Unlink path) ENOENT w
                     | Some Subdirectory \<Rightarrow> failure (Unlink path) EISDIR w
                     | Some (RegularFile i) \<Rightarrow>
                         success (Unlink path)
                           (w\<lparr>targetTree :=
                              AList.update d (RootDirectory (AList.delete f entries))
                                (targetTree w)\<rparr>)))))"

text \<open>
  \<^verbatim>\<open>link(existingPath, newPath)\<close>: a new entry for the inode of a source file, where
  no entry is yet and the directory exists.
\<close>

definition link :: "jsstring \<Rightarrow> jsstring \<Rightarrow> world \<Rightarrow> errno option \<times> world" where
  "link existingPath newPath w =
     (case faults w (Link existingPath newPath) of
        Some e \<Rightarrow> failure (Link existingPath newPath) e w
      | None \<Rightarrow>
          (case map_of (sourceInodes w) existingPath of
             None \<Rightarrow> failure (Link existingPath newPath) ENOENT w
           | Some i \<Rightarrow>
               (case resolve w newPath of
                  None \<Rightarrow> failure (Link existingPath newPath) ENOENT w
                | Some TargetRoot \<Rightarrow> failure (Link existingPath newPath) EEXIST w
                | Some (RootLevel x) \<Rightarrow>
                    (case map_of (targetTree w) x of
                       None \<Rightarrow>
                         success (Link existingPath newPath)
                           (w\<lparr>targetTree := targetTree w @ [(x, RootFile i)]\<rparr>)
                     | Some entry \<Rightarrow> failure (Link existingPath newPath) EEXIST w)
                | Some (InDirectory d f) \<Rightarrow>
                    (case map_of (targetTree w) d of
                       None \<Rightarrow> failure (Link existingPath newPath) ENOENT w
                     | Some (RootFile j) \<Rightarrow> failure (Link existingPath newPath) ENOTDIR w
                     | Some (RootDirectory entries) \<Rightarrow>
                         (case map_of entries f of
                            None \<Rightarrow>
                              success (Link existingPath newPath)
                                (w\<lparr>targetTree :=
                                   AList.update d (RootDirectory (entries @ [(f, RegularFile i)]))
                                     (targetTree w)\<rparr>)
                          | Some entry \<Rightarrow> failure (Link existingPath newPath) EEXIST w)))))"

section \<open>The synchronization\<close>

text \<open>
  \<^verbatim>\<open>safeUnlink\<close>: \<open>Inr False\<close> is the refusal, \<open>Inr True\<close> the removal, and
  \<open>Inl e\<close> the rejection of the promise with the error of \<^verbatim>\<open>unlink\<close>.
\<close>

definition safeUnlink :: "jsstring \<Rightarrow> world \<Rightarrow> (errno + bool) \<times> world" where
  "safeUnlink filePath w =
     (if length (filter (\<lambda>c. c = 47) filePath) < 2 \<or> startsWith filePath (js ''//'')
      then (Inr False, w)
      else (case unlink filePath w of
              (Some e, w') \<Rightarrow> (Inl e, w')
            | (None, w') \<Rightarrow> (Inr True, w')))"

text \<open>
  The end of the \<^verbatim>\<open>try\<close> block of \<^verbatim>\<open>linkFile\<close>: the link is made and the
  relative path returned; an error of \<^verbatim>\<open>link\<close> is caught and gives null.
\<close>

definition createLink ::
  "jsstring \<Rightarrow> jsstring \<Rightarrow> jsstring \<Rightarrow> world \<Rightarrow> jsstring option \<times> world" where
  "createLink source target relativePath w =
     (case link source target w of
        (Some e, w') \<Rightarrow> (None, w')
      | (None, w') \<Rightarrow> (Some relativePath, w'))"

text \<open>
  \<^verbatim>\<open>linkFile\<close>. The result \<open>None\<close> is null. Every error inside the \<^verbatim>\<open>try\<close>
  block ends in its \<^verbatim>\<open>catch\<close>, which returns null; an error of \<^verbatim>\<open>stat\<close> is
  caught on the spot and stands for a missing target.
\<close>

definition linkFile :: "jsstring \<Rightarrow> OpfMetadata \<Rightarrow> world \<Rightarrow> jsstring option \<times> world" where
  "linkFile source metadata w =
     (if title metadata = None \<or> title metadata = Some [] then (None, w)
      else
        (let (directory, fileName) = calculateTargetPath metadata;
             target = outDir w @ js ''/'' @ directory @ js ''/'' @ fileName;
             relativePath = directory @ js ''/'' @ fileName
         in case mkdir (outDir w @ js ''/'' @ directory) w of
              (Some e, w1) \<Rightarrow> (None, w1)
            | (None, w1) \<Rightarrow>
                (case stat target w1 of
                   Inl e \<Rightarrow> createLink source target relativePath w1
                 | Inr nlink \<Rightarrow>
                     if nlink \<noteq> 0 \<and> nlink < 2 then
                       (case safeUnlink target w1 of
                          (Inl e, w2) \<Rightarrow> (None, w2)
                        | (Inr False, w2) \<Rightarrow> (None, w2)
                        | (Inr True, w2) \<Rightarrow> createLink source target relativePath w2)
                     else (Some relativePath, w1))))"

text \<open>
  \<^verbatim>\<open>readSourceFiles\<close>: for every book folder of every author folder, the first regular
  file ending in \<^verbatim>\<open>.epub\<close> and the regular file \<^verbatim>\<open>metadata.opf\<close>; a folder
  without one of them, or whose sidecar \<^verbatim>\<open>parseOpf\<close> rejects, adds nothing.
\<close>

fun isSourceFile :: "bookFolderEntry \<Rightarrow> bool" where
  "isSourceFile (SourceFile i content) = True"
| "isSourceFile OtherBookEntry = False"

definition readBookFolder ::
  "jsstring \<Rightarrow> (jsstring \<times> bookFolderEntry) list \<Rightarrow> (jsstring \<times> OpfMetadata) list" where
  "readBookFolder bookPath bookFiles =
     (case find (\<lambda>(fileName, file). isSourceFile file \<and> endsWith fileName (js ''.epub'')) bookFiles of
        None \<Rightarrow> []
      | Some (epubName, epubFile) \<Rightarrow>
          (case find (\<lambda>(fileName, file). isSourceFile file \<and> fileName = js ''metadata.opf'') bookFiles of
             None \<Rightarrow> []
           | Some (opfName, OtherBookEntry) \<Rightarrow> []
           | Some (opfName, SourceFile i content) \<Rightarrow>
               (case parseOpf content of
                  Inl e \<Rightarrow> []
                | Inr metadata \<Rightarrow> [(bookPath @ js ''/'' @ epubName, metadata)])))"

definition readAuthorFolder ::
  "jsstring \<Rightarrow> (jsstring \<times> authorFolderEntry) list \<Rightarrow> (jsstring \<times> OpfMetadata) list" where
  "readAuthorFolder authorPath bookFolders =
     concat (map (\<lambda>(bookName, bookFolder).
       case bookFolder of
         OtherAuthorEntry \<Rightarrow> []
       | BookFolder bookFiles \<Rightarrow> readBookFolder (authorPath @ js ''/'' @ bookName) bookFiles)
       bookFolders)"

definition readSourceFiles :: "world \<Rightarrow> (jsstring \<times> OpfMetadata) list" where
  "readSourceFiles w =
     concat (map (\<lambda>(authorName, authorFolder).
       case authorFolder of
         OtherRootEntry \<Rightarrow> []
       | AuthorFolder bookFolders \<Rightarrow>
           readAuthorFolder (inDir w @ js ''/'' @ authorName) bookFolders)
       (sourceTree w))"

text \<open>
  A \<^verbatim>\<open>Set\<close> of strings is the list of its elements in insertion order:
  \<^verbatim>\<open>add\<close> appends an element that is not yet there, \<^verbatim>\<open>delete\<close> removes it.
\<close>

definition setAdd :: "jsstring \<Rightarrow> jsstring list \<Rightarrow> jsstring list" where
  "setAdd x xs = (if x \<in> set xs then xs else xs @ [x])"

definition setDelete :: "jsstring \<Rightarrow> jsstring list \<Rightarrow> jsstring list" where
  "setDelete x xs = removeAll x xs"

text \<open>\<^verbatim>\<open>getFilesInTargetDir\<close>: the inner loop over one directory, and the outer loop.\<close>

fun scanDirectory ::
  "jsstring \<Rightarrow> (jsstring \<times> directoryEntry) list \<Rightarrow> jsstring list \<Rightarrow> jsstring list" where
  "scanDirectory dirName [] epubs = epubs"
| "scanDirectory dirName ((fileName, file) # bookFiles) epubs =
     scanDirectory dirName bookFiles
       (if file \<noteq> Subdirectory \<and> endsWith fileName (js ''.epub'')
        then setAdd (dirName @ js ''/'' @ fileName) epubs
        else epubs)"

fun scanRoot :: "(jsstring \<times> targetRootEntry) list \<Rightarrow> jsstring list \<Rightarrow> jsstring list" where
  "scanRoot [] epubs = epubs"
| "scanRoot ((dirName, RootFile i) # seriesDirs) epubs = scanRoot seriesDirs epubs"
| "scanRoot ((dirName, RootDirectory bookFiles) # seriesDirs) epubs =
     scanRoot seriesDirs (scanDirectory dirName bookFiles epubs)"

definition getFilesInTargetDir :: "world \<Rightarrow> jsstring list" where
  "getFilesInTargetDir w = scanRoot (targetTree w) []"

text \<open>
  \<^verbatim>\<open>syncFiles\<close>. The first loop links every source entry and takes the returned path
  out of \<^verbatim>\<open>targetFiles\<close>; nothing is thrown inside it, \<^verbatim>\<open>linkFile\<close> catching
  its errors. The second loop removes what is left; the outcome of \<^verbatim>\<open>safeUnlink\<close>
  only decides what is logged. The destructuring of \<^verbatim>\<open>unusedFile.split("/")\<close> takes
  the first two pieces, a missing one printing as \<^verbatim>\<open>undefined\<close> in the template.
\<close>

fun linkAll ::
  "(jsstring \<times> OpfMetadata) list \<Rightarrow> jsstring list \<Rightarrow> world \<Rightarrow> jsstring list \<times> world" where
  "linkAll [] targetFiles w = (targetFiles, w)"
| "linkAll ((sourcePath, metadata) # sourceFiles) targetFiles w =
     (case linkFile sourcePath metadata w of
        (None, w') \<Rightarrow> linkAll sourceFiles targetFiles w'
      | (Some targetPath, w') \<Rightarrow>
          linkAll sourceFiles
            (if targetPath \<noteq> [] \<and> targetPath \<in> set targetFiles
             then setDelete targetPath targetFiles else targetFiles) w')"

definition piece :: "jsstring list \<Rightarrow> nat \<Rightarrow> jsstring" where
  "piece parts k = (if k < length parts then parts ! k else js ''undefined'')"

definition unusedFilePath :: "world \<Rightarrow> jsstring \<Rightarrow> jsstring" where
  "unusedFilePath w unusedFile =
     (let parts = split 47 unusedFile;
          seriesName = piece parts 0;
          fileName = piece parts 1
      in outDir w @ js ''/'' @ seriesName @ js ''/'' @ fileName)"

fun pruneAll :: "jsstring list \<Rightarrow> world \<Rightarrow> world" where
  "pruneAll [] w = w"
| "pruneAll (unusedFile # targetFiles) w =
     pruneAll targetFiles (snd (safeUnlink (unusedFilePath w unusedFile) w))"

definition syncFiles :: "world \<Rightarrow> world" where
  "syncFiles w =
     (let sourceFiles = readSourceFiles w;
          targetFiles = getFilesInTargetDir w;
          (unused, w') = linkAll sourceFiles targetFiles w
      in pruneAll unused w')"

section \<open>Observations of the target tree\<close>

text \<open>
  What is at a location of the target tree: nothing, a regular file with its inode, or a
  directory.
\<close>

datatype entryKind = FileEntry inode | DirectoryEntry

fun entryAt :: "world \<Rightarrow> location \<Rightarrow> entryKind option" where
  "entryAt w TargetRoot = Some DirectoryEntry"
| "entryAt w (RootLevel x) =
     (case map_of (targetTree w) x of
        None \<Rightarrow> None
      | Some (RootFile i) \<Rightarrow> Some (FileEntry i)
      | Some (RootDirectory entries) \<Rightarrow> Some DirectoryEntry)"
| "entryAt w (InDirectory d f) =
     (case map_of (targetTree w) d of
        None \<Rightarrow> None
      | Some (RootFile i) \<Rightarrow> None
      | Some (RootDirectory entries) \<Rightarrow>
          (case map_of entries f of
             None \<Rightarrow> None
           | Some (RegularFile i) \<Rightarrow> Some (FileEntry i)
           | Some Subdirectory \<Rightarrow> Some DirectoryEntry))"

definition fileAt :: "world \<Rightarrow> location \<Rightarrow> inode option" where
  "fileAt w l = (case entryAt w l of Some (FileEntry i) \<Rightarrow> Some i | _ \<Rightarrow> None)"

text \<open>
  A name a directory can list: not empty, without separator, and neither \<^verbatim>\<open>.\<close> nor
  \<^verbatim>\<open>..\<close>.
\<close>

definition validName :: "jsstring \<Rightarrow> bool" where
  "validName n = (n \<noteq> [] \<and> 47 \<notin> set n \<and> n \<noteq> js ''.'' \<and> n \<noteq> js ''..'')"

definition validDirectory :: "(jsstring \<times> directoryEntry) list \<Rightarrow> bool" where
  "validDirectory entries =
     (distinct (map fst entries) \<and> list_all (\<lambda>(fileName, file). validName fileName) entries)"

fun validRootEntry :: "jsstring \<times> targetRootEntry \<Rightarrow> bool" where
  "validRootEntry (entryName, RootFile i) = validName entryName"
| "validRootEntry (entryName, RootDirectory entries) =
     (validName entryName \<and> validDirectory entries)"

text \<open>
  The target tree is one a file system can hold: the names of a directory are valid and
  differ from each other.
\<close>

definition wellFormedTarget :: "world \<Rightarrow> bool" where
  "wellFormedTarget w =
     (distinct (map fst (targetTree w)) \<and> list_all validRootEntry (targetTree w))"

text \<open>
  The target root \<^verbatim>\<open>safeUnlink\<close> does not refuse: a path made of it, a separator
  and more does not begin with a doubled separator. \<^verbatim>\<open>env.ts\<close> ends the process on
  an empty \<^verbatim>\<open>TARGET_DIR\<close>.
\<close>

definition safeRoot :: "world \<Rightarrow> bool" where
  "safeRoot w = (outDir w \<noteq> [] \<and> \<not> startsWith (outDir w @ js ''/'') (js ''//''))"

text \<open>No call fails for a reason outside of the two trees.\<close>

definition noFaults :: "world \<Rightarrow> bool" where
  "noFaults w = (faults w = (\<lambda>c. None))"

text \<open>Both: the setting in which a pass runs as the trees dictate.\<close>

definition regular :: "world \<Rightarrow> bool" where
  "regular w = (safeRoot w \<and> noFaults w)"

text \<open>The location of the target \<^verbatim>\<open>linkFile\<close> computes for a directory and a file name.\<close>

definition targetLocation :: "jsstring \<Rightarrow> jsstring \<Rightarrow> location" where
  "targetLocation directory fileName =
     (if directory = [] then RootLevel fileName else InDirectory directory fileName)"

text \<open>\<^verbatim>\<open>!metadata.title\<close> is false: the title is present and not empty.\<close>

definition hasTitle :: "OpfMetadata \<Rightarrow> bool" where
  "hasTitle metadata = (title metadata \<noteq> None \<and> title metadata \<noteq> Some [])"

text \<open>
  The relative path \<^verbatim>\<open>linkFile\<close> returns for a source entry it links, and the source
  entries that correspond to a relative path of the target tree.
\<close>

definition relativePathOf :: "OpfMetadata \<Rightarrow> jsstring" where
  "relativePathOf metadata =
     (case calculateTargetPath metadata of (directory, fileName) \<Rightarrow> directory @ js ''/'' @ fileName)"

definition correspondsTo :: "OpfMetadata \<Rightarrow> jsstring \<Rightarrow> bool" where
  "correspondsTo metadata relativePath =
     (hasTitle metadata \<and> relativePathOf metadata = relativePath)"

definition locationOf :: "OpfMetadata \<Rightarrow> location" where
  "locationOf metadata =
     (case calculateTargetPath metadata of (directory, fileName) \<Rightarrow> targetLocation directory fileName)"

text \<open>The links of an inode from outside of the target tree.\<close>

definition outsideLinks :: "world \<Rightarrow> inode \<Rightarrow> nat" where
  "outsideLinks w i = sourceLinks w i + otherLinks w i"

text \<open>
  Every file of the target tree with two or more links has a link from outside of the
  target tree.
\<close>

definition linkedFromOutside :: "world \<Rightarrow> bool" where
  "linkedFromOutside w =
     list_all (\<lambda>(entryName, entry).
        case entry of
          RootFile i \<Rightarrow> nlinkOf w i < 2 \<or> 1 \<le> outsideLinks w i
        | RootDirectory entries \<Rightarrow>
            list_all (\<lambda>(fileName, file).
               case file of
                 RegularFile i \<Rightarrow> nlinkOf w i < 2 \<or> 1 \<le> outsideLinks w i
               | Subdirectory \<Rightarrow> True) entries)
       (targetTree w)"

text \<open>
  The calls that make or remove a link, and the recorded calls that did so: the ones of
  them that succeeded.
\<close>

fun changesLinks :: "syscall \<Rightarrow> bool" where
  "changesLinks (Stat path) = False"
| "changesLinks (Mkdir path) = False"
| "changesLinks (Unlink path) = True"
| "changesLinks (Link existingPath newPath) = True"

definition performed :: "syscall \<times> errno option \<Rightarrow> bool" where
  "performed call = (changesLinks (fst call) \<and> snd call = None)"

text \<open>
  Two worlds with the same directories, source tree, links from elsewhere, link counts of
  directories and faults.
\<close>

definition sameSetting :: "world \<Rightarrow> world \<Rightarrow> bool" where
  "sameSetting w w' =
     (inDir w' = inDir w \<and> outDir w' = outDir w \<and> sourceTree w' = sourceTree w
      \<and> otherLinks w' = otherLinks w \<and> directoryLinkCount w' = directoryLinkCount w
      \<and> faults w' = faults w)"

text \<open>
  The second world comes from the first by calls that changed nothing: the trees are the
  same, and none of the calls made or removed a link.
\<close>

definition quietly :: "world \<Rightarrow> world \<Rightarrow> bool" where
  "quietly w w' = (\<exists>cs. w' = w\<lparr>calls := calls w @ cs\<rparr> \<and> filter performed cs = [])"

text \<open>
  A regular file at the root of the target tree is in the way of the directory
  \<^verbatim>\<open>linkFile\<close> wants for a target: \<^verbatim>\<open>mkdir\<close> fails there.
\<close>

definition blocked :: "world \<Rightarrow> jsstring \<Rightarrow> bool" where
  "blocked w directory =
     (directory \<noteq> [] \<and> (case entryAt w (RootLevel directory) of
                              Some (FileEntry i) \<Rightarrow> True
                            | _ \<Rightarrow> False))"

text \<open>
  A file that \<^verbatim>\<open>linkFile\<close> leaves as it is: one with a link from outside of the
  target tree, and so with two links or more.
\<close>

definition settled :: "world \<Rightarrow> location \<Rightarrow> bool" where
  "settled w l =
     (case entryAt w l of
        None \<Rightarrow> False
      | Some DirectoryEntry \<Rightarrow> False
      | Some (FileEntry i) \<Rightarrow> 1 \<le> outsideLinks w i)"

text \<open>
  The same as \<open>linkedFromOutside\<close>, by locations: every file of the target tree with two
  or more links has a link from outside of the target tree.
\<close>

definition outsideInvariant :: "world \<Rightarrow> bool" where
  "outsideInvariant w =
     (\<forall>l i. entryAt w l = Some (FileEntry i) \<longrightarrow> 2 \<le> nlinkOf w i \<longrightarrow> 1 \<le> outsideLinks w i)"

text \<open>The path is the path of a regular file of a book folder.\<close>

definition validSource :: "world \<Rightarrow> jsstring \<Rightarrow> bool" where
  "validSource w source = (map_of (sourceInodes w) source \<noteq> None)"

text \<open>
  The second world comes from the first by calls that leave alone the setting, the
  directories, and every file away from the location \<open>l\<close>; at \<open>l\<close> the file is the same,
  or it is \<open>i\<close> (nothing, or a new link to an inode); no other inode gains a link in the
  target tree; and the only new entries away from \<open>l\<close> are directories at the root
  whose name has no dot.
\<close>

definition changesOnly :: "world \<Rightarrow> world \<Rightarrow> location \<Rightarrow> inode option \<Rightarrow> bool" where
  "changesOnly w w' l i =
     (sameSetting w w'
      \<and> (\<forall>l'. l' \<noteq> l \<longrightarrow> fileAt w' l' = fileAt w l')
      \<and> (fileAt w' l = fileAt w l \<or> fileAt w' l = i)
      \<and> (\<forall>l'. entryAt w l' = Some DirectoryEntry \<longrightarrow> entryAt w' l' = Some DirectoryEntry)
      \<and> (\<forall>l'. l' \<noteq> l \<longrightarrow> entryAt w' l' = entryAt w l' \<or> (\<exists>d. l' = RootLevel d \<and> 46 \<notin> set d))
      \<and> (\<forall>k. Some k \<noteq> i \<longrightarrow> targetLinks w' k \<le> targetLinks w k)
      \<and> (wellFormedTarget w \<longrightarrow> wellFormedTarget w'))"

text \<open>
  What the first loop of \<^verbatim>\<open>syncFiles\<close> does to \<^verbatim>\<open>targetFiles\<close> with the result
  of \<^verbatim>\<open>linkFile\<close>.
\<close>

definition reconfirm :: "jsstring option \<Rightarrow> jsstring list \<Rightarrow> jsstring list" where
  "reconfirm r targetFiles =
     (case r of
        None \<Rightarrow> targetFiles
      | Some targetPath \<Rightarrow>
          if targetPath \<noteq> [] \<and> targetPath \<in> set targetFiles
          then setDelete targetPath targetFiles else targetFiles)"

text \<open>A relative path of two valid names, and the location it names.\<close>

definition validRelative :: "jsstring \<Rightarrow> bool" where
  "validRelative u =
     (case split 47 u of
        [d, f] \<Rightarrow> validName d \<and> validName f
      | _ \<Rightarrow> False)"

definition relativeLocation :: "jsstring \<Rightarrow> location" where
  "relativeLocation u = InDirectory (piece (split 47 u) 0) (piece (split 47 u) 1)"

text \<open>
  The second world comes from the first by removing the file at the location \<open>l\<close>, if
  there is one, and nothing else.
\<close>

definition removesOnly :: "world \<Rightarrow> world \<Rightarrow> location \<Rightarrow> bool" where
  "removesOnly w w' l =
     (sameSetting w w'
      \<and> (\<forall>l'. l' \<noteq> l \<longrightarrow> entryAt w' l' = entryAt w l')
      \<and> fileAt w' l = None
      \<and> (entryAt w' l = entryAt w l \<or> fileAt w l \<noteq> None)
      \<and> (\<forall>k. targetLinks w' k \<le> targetLinks w k)
      \<and> (wellFormedTarget w \<longrightarrow> wellFormedTarget w'))"

section \<open>Example values\<close>

text \<open>A document with three identifiers, the one of scheme \<^verbatim>\<open>uuid\<close> last.\<close>

definition exampleIdentifiers :: "opfPackageMetadata" where
  "exampleIdentifiers =
     \<lparr> dcIdentifier = Some [\<lparr> idText = TextNumber (Finite False 7 1), opfScheme = None \<rparr>,
                             \<lparr> idText = TextString (js ''c''), opfScheme = Some (js ''calibre'') \<rparr>,
                             \<lparr> idText = TextString (js ''u''), opfScheme = Some (js ''uuid'') \<rparr>],
       dcTitle = None, dcCreator = None, dcMeta = None \<rparr>"

text \<open>A book without series, with a doubled space in its title and no creator.\<close>

definition exampleStandalone :: OpfMetadata where
  "exampleStandalone =
     \<lparr> ident = None, title = Some (js ''Another  Book''), creator = None,
       series = None, seriesIndex = None \<rparr>"

text \<open>A book whose title has no character of \<^verbatim>\<open>[a-zA-Z0-9 ]\<close>.\<close>

definition examplePunctuationTitle :: OpfMetadata where
  "examplePunctuationTitle =
     \<lparr> ident = None, title = Some (js ''?''), creator = Some (js ''Jane Doe''),
       series = None, seriesIndex = None \<rparr>"

text \<open>The first book of the series \<^verbatim>\<open>Books\<close>, as in the tests of the repository.\<close>

definition exampleFirstBook :: OpfMetadata where
  "exampleFirstBook =
     \<lparr> ident = None, title = None, creator = None,
       series = Some (js ''Books''), seriesIndex = Some (numberOfNat 1) \<rparr>"

text \<open>A book whose sidecar gives \<^verbatim>\<open>-1\<close> as series index.\<close>

definition exampleNegativeIndex :: OpfMetadata where
  "exampleNegativeIndex =
     \<lparr> ident = None, title = None, creator = None,
       series = Some (js ''Books''), seriesIndex = Some (parseFloat (js ''-1'')) \<rparr>"

text \<open>
  A sidecar whose \<^verbatim>\<open>calibre:series_index\<close> is \<^verbatim>\<open>abc\<close>, and the metadata
  \<^verbatim>\<open>parseOpf\<close> makes of it, by the series index.
\<close>

definition exampleUnparsableIndex :: opfPackageMetadata where
  "exampleUnparsableIndex =
     \<lparr> dcIdentifier = None, dcTitle = Some (js ''First Book''),
       dcCreator = Some (js ''John Smith''),
       dcMeta = Some [\<lparr> metaName = js ''calibre:series'', metaContent = js ''Books'' \<rparr>,
                      \<lparr> metaName = js ''calibre:series_index'', metaContent = js ''abc'' \<rparr>] \<rparr>"

definition exampleUnparsableParsed :: "jsnum option \<Rightarrow> OpfMetadata" where
  "exampleUnparsableParsed idx =
     \<lparr> ident = None, title = Some (js ''First Book''), creator = Some (js ''John Smith''),
       series = Some (js ''Books''), seriesIndex = idx \<rparr>"

text \<open>
  Worlds with the source root \<^verbatim>\<open>/in\<close>, the target root \<^verbatim>\<open>/out\<close> and one
  author folder, \<^verbatim>\<open>B\<close>, on a file system where a directory has two links, and
  without a fault. A book folder holds the book, with the inode \<open>i\<close>, and its sidecar.
\<close>

definition exampleBookFolder :: "inode \<Rightarrow> inode \<Rightarrow> opfPackageMetadata \<Rightarrow> authorFolderEntry" where
  "exampleBookFolder i j package =
     BookFolder [(js ''A.epub'', SourceFile i None), (js ''metadata.opf'', SourceFile j (Some package))]"

definition exampleWorld ::
  "(jsstring \<times> authorFolderEntry) list \<Rightarrow> (jsstring \<times> targetRootEntry) list \<Rightarrow> world" where
  "exampleWorld bookFolders tree =
     \<lparr> inDir = js ''/in'', outDir = js ''/out'',
       sourceTree = [(js ''B'', AuthorFolder bookFolders)],
       targetTree = tree,
       otherLinks = (\<lambda>i. 0),
       directoryLinkCount = (\<lambda>l. 2),
       faults = (\<lambda>c. None),
       calls = [] \<rparr>"

text \<open>The sidecar of a book with the title \<open>t\<close> by \<^verbatim>\<open>B\<close>, and its metadata.\<close>

definition examplePackage :: "jsstring \<Rightarrow> opfPackageMetadata" where
  "examplePackage t =
     \<lparr> dcIdentifier = None, dcTitle = Some t, dcCreator = Some (js ''B''), dcMeta = None \<rparr>"

definition exampleBook :: "jsstring \<Rightarrow> OpfMetadata" where
  "exampleBook t =
     \<lparr> ident = None, title = Some t, creator = Some (js ''B''), series = None,
       seriesIndex = None \<rparr>"

text \<open>
  A library with one book, \<^verbatim>\<open>A\<close> by \<^verbatim>\<open>B\<close>. The target tree has a file at its
  root, a directory with two files that no book of the library maps to, and a copy of the
  book where the book maps to.
\<close>

definition exampleLibrary :: world where
  "exampleLibrary =
     exampleWorld [(js ''A (1)'', exampleBookFolder 11 12 (examplePackage (js ''A'')))]
       [(js ''notes.epub'', RootFile 5),
        (js ''Old'', RootDirectory [(js ''Old.epub'', RegularFile 6), (js ''cover.jpg'', RegularFile 7)]),
        (js ''A - B'', RootDirectory [(js ''A - B.epub'', RegularFile 9)])]"

text \<open>The metadata of a sidecar without title.\<close>

definition exampleUntitled :: OpfMetadata where
  "exampleUntitled =
     \<lparr> ident = Some (TextString (js ''u'')), title = None, creator = Some (js ''B''),
       series = Some (js ''Books''), seriesIndex = Some (numberOfNat 1) \<rparr>"

text \<open>
  A library with one book, the first of the series \<^verbatim>\<open>!\<close>, and a target tree with
  one file, at its root.
\<close>

definition exampleSeriesPackage :: opfPackageMetadata where
  "exampleSeriesPackage =
     \<lparr> dcIdentifier = None, dcTitle = Some (js ''A''), dcCreator = Some (js ''B''),
       dcMeta = Some [\<lparr> metaName = js ''calibre:series'', metaContent = js ''!'' \<rparr>,
                      \<lparr> metaName = js ''calibre:series_index'', metaContent = js ''1'' \<rparr>] \<rparr>"

definition exampleSeriesBook :: OpfMetadata where
  "exampleSeriesBook =
     \<lparr> ident = None, title = Some (js ''A''), creator = Some (js ''B''),
       series = Some (js ''!''), seriesIndex = Some (parseFloat (js ''1'')) \<rparr>"

definition exampleRootTarget :: world where
  "exampleRootTarget =
     exampleWorld [(js ''A (1)'', exampleBookFolder 11 12 exampleSeriesPackage)]
       [(js '' - 01.epub'', RootFile 5)]"


text \<open>
  A library with one book, and a target tree with two links to one inode that is not the
  inode of the book: one where the book maps to, and one that no book maps to.
\<close>

definition exampleSharedInode :: world where
  "exampleSharedInode =
     exampleWorld [(js ''A (1)'', exampleBookFolder 11 12 (examplePackage (js ''A'')))]
       [(js ''A - B'', RootDirectory [(js ''A - B.epub'', RegularFile 7), (js ''Z.epub'', RegularFile 7)])]"

section \<open>Strings and numbers: lemmas\<close>

lemmas evaluation =
  js_def sanitize_def stripDisallowed_def isAllowed_def isWhiteSpace_def
  numberToString_def decimalDigits.simps padStart_def parseFloat_def mkFinite_def
  exponentPart_def digitsValue_def isDigit_def startsWith_def endsWith_def
  calculateTargetPath_def sanitizedOr_def parseOpf_def findOpt_def firstOpt_def orElse_def
  Let_def

lemma sanitize_allowed: "c \<in> set (sanitize s) \<Longrightarrow> isAllowed c"
  by (simp add: sanitize_def stripDisallowed_def)

lemma collapseWhitespace_plain:
  "\<forall>c\<in>set s. \<not> isWhiteSpace c \<Longrightarrow> collapseWhitespace s = s"
  by (induction s) auto

lemma dropWhile_stop: "b = [] \<or> \<not> P (hd b) \<Longrightarrow> dropWhile P b = b"
  by (cases b) auto

lemma dropWhile_run:
  "\<forall>c\<in>set ws. P c \<Longrightarrow> b = [] \<or> \<not> P (hd b) \<Longrightarrow> dropWhile P (ws @ b) = b"
  by (induction ws) (cases b; simp)+

lemma collapseWhitespace_run:
  assumes "ws \<noteq> []" "\<forall>c\<in>set ws. isWhiteSpace c"
    and "a = [] \<or> \<not> isWhiteSpace (last a)" "b = [] \<or> \<not> isWhiteSpace (hd b)"
  shows "collapseWhitespace (a @ ws @ b) = collapseWhitespace a @ 32 # collapseWhitespace b"
  using assms(3)
proof (induction a rule: collapseWhitespace.induct)
  case 1
  from assms(1) obtain w ws' where ws: "ws = w # ws'" by (cases ws) auto
  with assms(2,4) show ?case by (simp add: dropWhile_stop)
next
  case (2 c cs)
  show ?case
  proof (cases "isWhiteSpace c")
    case True
    with 2(3) have cs: "cs \<noteq> []" "\<not> isWhiteSpace (last cs)" by (auto split: if_splits)
    then have ex: "\<exists>x\<in>set cs. \<not> isWhiteSpace x" using last_in_set by blast
    then have dw: "dropWhile isWhiteSpace (cs @ ws @ b) = dropWhile isWhiteSpace cs @ ws @ b"
      by (auto simp: dropWhile_append)
    have ne: "dropWhile isWhiteSpace cs \<noteq> []" using ex by (simp add: dropWhile_eq_Nil_conv)
    have "last (dropWhile isWhiteSpace cs) = last cs"
      using ne by (metis last_appendR takeWhile_dropWhile_id)
    with cs ne have "dropWhile isWhiteSpace cs = [] \<or> \<not> isWhiteSpace (last (dropWhile isWhiteSpace cs))"
      by simp
    from 2(1)[OF True this] True dw show ?thesis by simp
  next
    case False
    show ?thesis
    proof (cases "cs = []")
      case True
      from assms(1) obtain w ws' where ws: "ws = w # ws'" by (cases ws) auto
      with True False assms(2,4) show ?thesis by (simp add: dropWhile_stop)
    next
      case nonempty: False
      with 2(3) have "cs = [] \<or> \<not> isWhiteSpace (last cs)" by simp
      from 2(2)[OF False this] False show ?thesis by simp
    qed
  qed
qed

lemma find_SomeD: "find P xs = Some x \<Longrightarrow> x \<in> set xs \<and> P x"
  by (induction xs) (auto split: if_splits)

lemma stripTrailingZeros_pos: "0 < m \<Longrightarrow> 0 < stripTrailingZeros m"
proof (induction m rule: stripTrailingZeros.induct)
  case (1 m)
  show ?case
  proof (cases "m mod 10 = 0")
    case True
    with 1(2) have "0 < m div 10" by (simp add: div_greater_zero_iff mod_eq_0_iff_dvd dvd_imp_le)
    with 1 True show ?thesis by (subst stripTrailingZeros.simps) simp
  next
    case False
    with 1(2) show ?thesis by (subst stripTrailingZeros.simps) simp
  qed
qed

lemma decimalDigits_trailing:
  "0 < m \<Longrightarrow> \<exists>z. decimalDigits m = decimalDigits (stripTrailingZeros m) @ replicate z 48"
proof (induction m rule: stripTrailingZeros.induct)
  case (1 m)
  show ?case
  proof (cases "m mod 10 = 0")
    case True
    with 1(2) have big: "\<not> m < 10" and pos: "0 < m div 10" by auto
    from 1(1) True pos 1(2) obtain z where
      z: "decimalDigits (m div 10) = decimalDigits (stripTrailingZeros (m div 10)) @ replicate z 48"
      by auto
    have strip: "stripTrailingZeros m = stripTrailingZeros (m div 10)"
      using True 1(2) by (subst stripTrailingZeros.simps) simp
    have "decimalDigits m = decimalDigits (m div 10) @ [48]"
      using big True by (subst decimalDigits.simps) simp
    with z strip have "decimalDigits m = decimalDigits (stripTrailingZeros m) @ replicate (Suc z) 48"
      by (simp add: replicate_append_same)
    then show ?thesis by blast
  next
    case False
    then have "stripTrailingZeros m = m" by (subst stripTrailingZeros.simps) simp
    then have "decimalDigits m = decimalDigits (stripTrailingZeros m) @ replicate 0 48" by simp
    then show ?thesis by blast
  qed
qed

lemma length_decimalDigits_le:
  "m < 10 ^ k \<Longrightarrow> 0 < k \<Longrightarrow> length (decimalDigits m) \<le> k"
proof (induction m arbitrary: k rule: decimalDigits.induct)
  case (1 m)
  show ?case
  proof (cases "m < 10")
    case True
    with 1(3) show ?thesis by (subst decimalDigits.simps) simp
  next
    case False
    from 1(3) obtain j where k: "k = Suc j" by (cases k) auto
    with False 1(2) have j: "0 < j" by (cases j) auto
    from 1(2) k have "m div 10 < 10 ^ j" by (simp add: less_mult_imp_div_less mult.commute)
    from 1(1)[OF False this j] False k show ?thesis by (subst decimalDigits.simps) simp
  qed
qed

lemma decimalDigits_nonempty: "decimalDigits m \<noteq> []"
  by (subst decimalDigits.simps) simp

lemma numberToString_numberOfNat:
  assumes "m < 10 ^ 21"
  shows "numberToString (numberOfNat m) = decimalDigits m"
proof (cases "m = 0")
  case True
  then show ?thesis
    by (simp add: numberOfNat_def numberToString_def js_def decimalDigits.simps)
next
  case False
  then have pos: "0 < m" by simp
  from decimalDigits_trailing[OF pos] obtain z where
    z: "decimalDigits m = decimalDigits (stripTrailingZeros m) @ replicate z 48" by blast
  from length_decimalDigits_le[OF assms] have le: "length (decimalDigits m) \<le> 21" by simp
  have len: "length (decimalDigits m) = length (decimalDigits (stripTrailingZeros m)) + z"
    by (subst z) simp
  from stripTrailingZeros_pos[OF pos] have "stripTrailingZeros m \<noteq> 0" by simp
  with False le len z show ?thesis
    by (simp add: numberOfNat_def numberToString_def Let_def)
qed

lemma padStart_zero:
  "padStart 2 (js ''0'') str = replicate (2 - length str) 48 @ str"
  by (auto simp: padStart_def js_def)

lemma numberToString_nonempty: "numberToString x \<noteq> []"
  by (auto simp: numberToString_def js_def Let_def decimalDigits_nonempty split: jsnum.splits)

lemma length_decimalDigits_small: "length (decimalDigits m) < 2 \<longleftrightarrow> m < 10"
proof (cases "m < 10")
  case True then show ?thesis by (subst decimalDigits.simps) simp
next
  case False
  have "decimalDigits (m div 10) \<noteq> []" by (rule decimalDigits_nonempty)
  then have "0 < length (decimalDigits (m div 10))" by simp
  with False show ?thesis by (subst decimalDigits.simps) simp
qed

section \<open>The metadata parser and the path policy: claims\<close>

text \<open>
  Claim C7. For every valid sidecar document, \<^verbatim>\<open>parseOpf\<close> takes the id from an
  identifier whose scheme is \<^verbatim>\<open>uuid\<close> if there is one; otherwise from one whose
  scheme is \<^verbatim>\<open>calibre\<close>; otherwise from the first identifier; and leaves the id
  absent when there is no identifier.
\<close>

theorem parseOpf_identifier_selection:
  "\<exists>md. parseOpf (Some m) = Inr md \<and>
     (if \<exists>i\<in>set (identifiersOf m). opfScheme i = Some (js ''uuid'')
      then \<exists>i\<in>set (identifiersOf m). opfScheme i = Some (js ''uuid'') \<and> ident md = Some (idText i)
      else if \<exists>i\<in>set (identifiersOf m). opfScheme i = Some (js ''calibre'')
      then \<exists>i\<in>set (identifiersOf m). opfScheme i = Some (js ''calibre'') \<and> ident md = Some (idText i)
      else if identifiersOf m \<noteq> [] then ident md = Some (idText (hd (identifiersOf m)))
      else ident md = None)"
proof (cases "dcIdentifier m")
  case None
  then show ?thesis
    by (simp add: parseOpf_def identifiersOf_def findOpt_def firstOpt_def orElse_def)
next
  case (Some xs)
  show ?thesis
  proof (cases "find (\<lambda>i. opfScheme i = Some (js ''uuid'')) xs")
    case u: (Some x)
    from find_SomeD[OF u] Some u show ?thesis
      by (auto simp: parseOpf_def identifiersOf_def findOpt_def firstOpt_def orElse_def)
  next
    case nu: None
    then have nou: "\<not> (\<exists>i\<in>set xs. opfScheme i = Some (js ''uuid''))"
      by (simp add: find_None_iff)
    show ?thesis
    proof (cases "find (\<lambda>i. opfScheme i = Some (js ''calibre'')) xs")
      case c: (Some x)
      from find_SomeD[OF c] Some c nu nou show ?thesis
        by (auto simp: parseOpf_def identifiersOf_def findOpt_def firstOpt_def orElse_def)
    next
      case nc: None
      then have noc: "\<not> (\<exists>i\<in>set xs. opfScheme i = Some (js ''calibre''))"
        by (simp add: find_None_iff)
      from Some nu nc nou noc show ?thesis
        by (cases xs) (auto simp: parseOpf_def identifiersOf_def findOpt_def firstOpt_def orElse_def)
    qed
  qed
qed

theorem parseOpf_identifier_selection_witness:
  "\<exists>md. parseOpf (Some exampleIdentifiers) = Inr md \<and> ident md = Some (TextString (js ''u''))"
  using parseOpf_identifier_selection [of exampleIdentifiers]
  by (simp add: exampleIdentifiers_def identifiersOf_def js_def)

text \<open>
  Claim C6, as amended. For every metadata record whose series is absent or empty or whose
  series index is absent, \<^verbatim>\<open>calculateTargetPath\<close> returns the stem
  \<open>title - creator\<close> as directory and the stem followed by \<^verbatim>\<open>.epub\<close> as file,
  where the title is the sanitized title, or \<^verbatim>\<open>Unknown Title\<close> when the title is
  absent or its sanitized form is empty, and likewise the creator with
  \<^verbatim>\<open>Unknown Creator\<close>. Sanitizing keeps the characters of \<^verbatim>\<open>[A-Za-z0-9 ]\<close> of
  the string in which every run of white space has become one space: a string without
  white space is unchanged by the collapse, and a run between two parts that do not touch
  it with white space becomes one space between the collapsed parts.
\<close>

theorem calculateTargetPath_without_series:
  assumes "series md = None \<or> series md = Some [] \<or> seriesIndex md = None"
  shows "calculateTargetPath md =
     (let t = (case title md of
                 None \<Rightarrow> js ''Unknown Title''
               | Some x \<Rightarrow> if sanitize x = [] then js ''Unknown Title'' else sanitize x);
          c = (case creator md of
                 None \<Rightarrow> js ''Unknown Creator''
               | Some x \<Rightarrow> if sanitize x = [] then js ''Unknown Creator'' else sanitize x);
          stem = t @ js '' - '' @ c
      in (stem, stem @ js ''.epub''))
    \<and> (\<forall>s. sanitize s = filter isAllowed (collapseWhitespace s))
    \<and> (\<forall>s. (\<forall>x\<in>set s. \<not> isWhiteSpace x) \<longrightarrow> collapseWhitespace s = s)
    \<and> (\<forall>a ws b. ws \<noteq> [] \<and> (\<forall>x\<in>set ws. isWhiteSpace x)
          \<and> (a = [] \<or> \<not> isWhiteSpace (last a)) \<and> (b = [] \<or> \<not> isWhiteSpace (hd b))
          \<longrightarrow> collapseWhitespace (a @ ws @ b) = collapseWhitespace a @ 32 # collapseWhitespace b)"
proof -
  have path: "calculateTargetPath md =
     (let t = (case title md of
                 None \<Rightarrow> js ''Unknown Title''
               | Some x \<Rightarrow> if sanitize x = [] then js ''Unknown Title'' else sanitize x);
          c = (case creator md of
                 None \<Rightarrow> js ''Unknown Creator''
               | Some x \<Rightarrow> if sanitize x = [] then js ''Unknown Creator'' else sanitize x);
          stem = t @ js '' - '' @ c
      in (stem, stem @ js ''.epub''))"
    using assms
    by (auto simp: calculateTargetPath_def sanitizedOr_def Let_def split: option.splits)
  have strip: "\<forall>s. sanitize s = filter isAllowed (collapseWhitespace s)"
    by (simp add: sanitize_def stripDisallowed_def)
  from path strip collapseWhitespace_plain collapseWhitespace_run show ?thesis
    by blast
qed

theorem calculateTargetPath_without_series_witness:
  "calculateTargetPath exampleStandalone =
     (js ''Another Book - Unknown Creator'', js ''Another Book - Unknown Creator.epub'')"
  using calculateTargetPath_without_series [of exampleStandalone]
  by (simp add: exampleStandalone_def js_def sanitize_def stripDisallowed_def isAllowed_def
      isWhiteSpace_def)

text \<open>
  Claim C6 as stated fails where a title is present and sanitizes to the empty string:
  for the title \<^verbatim>\<open>?\<close> the directory is \<^verbatim>\<open>Unknown Title - Jane Doe\<close>, not
  the sanitized title followed by \<^verbatim>\<open> - Jane Doe\<close>.
\<close>

theorem calculateTargetPath_empty_sanitized_title:
  "calculateTargetPath examplePunctuationTitle =
     (js ''Unknown Title - Jane Doe'', js ''Unknown Title - Jane Doe.epub'')
   \<and> sanitize (js ''?'') @ js '' - '' @ sanitize (js ''Jane Doe'') = js '' - Jane Doe''
   \<and> fst (calculateTargetPath examplePunctuationTitle)
       \<noteq> sanitize (js ''?'') @ js '' - '' @ sanitize (js ''Jane Doe'')"
  by (simp add: examplePunctuationTitle_def evaluation)

text \<open>
  Claim C5, as amended. For every metadata record with a non-empty series and a present
  series index, \<^verbatim>\<open>calculateTargetPath\<close> returns the sanitized series as directory
  and, as file, the sanitized series, \<^verbatim>\<open> - \<close>, the index label and
  \<^verbatim>\<open>.epub\<close>. The index label is the string form of the number
  (\<^verbatim>\<open>toString\<close>) with zeros in front up to two characters, so it has at least two
  characters; for a whole number up to \<open>2 ^ 53\<close>, where every whole number is a number
  of the runtime, it is the decimal numeral, with a zero in front of a single digit.
\<close>

theorem calculateTargetPath_with_series:
  assumes "series md = Some s" and "s \<noteq> []" and "seriesIndex md = Some idx"
  shows "calculateTargetPath md =
       (sanitize s,
        sanitize s @ js '' - '' @ padStart 2 (js ''0'') (numberToString idx) @ js ''.epub'')
     \<and> padStart 2 (js ''0'') (numberToString idx)
         = replicate (2 - length (numberToString idx)) 48 @ numberToString idx
     \<and> 2 \<le> length (padStart 2 (js ''0'') (numberToString idx))
     \<and> (\<forall>m. idx = numberOfNat m \<and> m \<le> 2 ^ 53 \<longrightarrow>
           padStart 2 (js ''0'') (numberToString idx)
             = (if m < 10 then [48, 48 + m] else decimalDigits m))"
proof -
  have path: "calculateTargetPath md =
       (sanitize s,
        sanitize s @ js '' - '' @ padStart 2 (js ''0'') (numberToString idx) @ js ''.epub'')"
    using assms by (simp add: calculateTargetPath_def Let_def)
  have pad: "padStart 2 (js ''0'') (numberToString idx)
         = replicate (2 - length (numberToString idx)) 48 @ numberToString idx"
    by (rule padStart_zero)
  have len: "2 \<le> length (padStart 2 (js ''0'') (numberToString idx))"
    by (subst pad) simp
  have nat: "padStart 2 (js ''0'') (numberToString idx)
             = (if m < 10 then [48, 48 + m] else decimalDigits m)"
    if "idx = numberOfNat m" "m \<le> 2 ^ 53" for m
  proof -
    have "(2::nat) ^ 53 < 10 ^ 21" by simp
    with that have "m < 10 ^ 21" by linarith
    with that have str: "numberToString idx = decimalDigits m"
      by (simp add: numberToString_numberOfNat)
    show ?thesis
    proof (cases "m < 10")
      case True
      then have "decimalDigits m = [48 + m]" by (subst decimalDigits.simps) simp
      with True str pad show ?thesis by (simp add: numeral_2_eq_2)
    next
      case False
      then have "\<not> length (decimalDigits m) < 2" by (simp add: length_decimalDigits_small)
      with False str pad show ?thesis by simp
    qed
  qed
  from path pad len nat show ?thesis by blast
qed

theorem calculateTargetPath_with_series_witness:
  "calculateTargetPath exampleFirstBook = (js ''Books'', js ''Books - 01.epub'')
   \<and> numberOfNat 1 = Finite False 1 1 \<and> parseFloat (js ''1'') = Finite False 1 1"
  using calculateTargetPath_with_series [of exampleFirstBook "js ''Books''" "numberOfNat 1"]
  by (simp add: exampleFirstBook_def evaluation numberOfNat_def stripTrailingZeros.simps)

text \<open>
  Claim C5 as stated fails for a negative index: the label of \<^verbatim>\<open>-1\<close> is
  \<^verbatim>\<open>-1\<close>, with one digit and no zero in front, since the minus sign counts for the
  width.
\<close>

theorem calculateTargetPath_negative_index:
  "calculateTargetPath exampleNegativeIndex = (js ''Books'', js ''Books - -1.epub'')
   \<and> length (filter isDigit (padStart 2 (js ''0'') (numberToString (parseFloat (js ''-1''))))) = 1"
  by (simp add: exampleNegativeIndex_def evaluation)

text \<open>
  Claim C4, as amended. When the content of \<^verbatim>\<open>calibre:series_index\<close> does not parse
  as a number, \<^verbatim>\<open>parseOpf\<close> yields the series index \<open>NaN\<close>, and
  \<^verbatim>\<open>calculateTargetPath\<close> keeps this index: with a non-empty series the directory is
  the sanitized series and the file is the sanitized series followed by
  \<^verbatim>\<open> - NaN.epub\<close>; only with an absent or empty series is the result the one for an
  absent index.
\<close>

theorem parseOpf_unparsable_seriesIndex:
  assumes "dcMeta m = Some entries"
    and "find (\<lambda>e. metaName e = js ''calibre:series_index'') entries = Some e"
    and "parseFloat (metaContent e) = NaN"
  shows "\<exists>md. parseOpf (Some m) = Inr md \<and> seriesIndex md = Some NaN \<and>
     (case series md of
        None \<Rightarrow> calculateTargetPath md = calculateTargetPath (md\<lparr>seriesIndex := None\<rparr>)
      | Some s \<Rightarrow>
          if s = [] then calculateTargetPath md = calculateTargetPath (md\<lparr>seriesIndex := None\<rparr>)
          else calculateTargetPath md = (sanitize s, sanitize s @ js '' - NaN.epub''))"
proof -
  obtain md where md: "parseOpf (Some m) = Inr md" and idx: "seriesIndex md = Some NaN"
    using assms by (simp add: parseOpf_def findOpt_def Let_def)
  have label: "js '' - '' @ padStart 2 (js ''0'') (numberToString NaN) @ js ''.epub'' = js '' - NaN.epub''"
    by (simp add: padStart_def numberToString_def js_def)
  have "calculateTargetPath md = calculateTargetPath (md\<lparr>seriesIndex := None\<rparr>)"
    if "series md = None \<or> series md = Some []"
    using that by (auto simp: calculateTargetPath_def split: option.splits)
  moreover have "calculateTargetPath md = (sanitize s, sanitize s @ js '' - NaN.epub'')"
    if "series md = Some s" "s \<noteq> []" for s
    using that idx label by (simp add: calculateTargetPath_def Let_def)
  ultimately show ?thesis using md idx
    by (cases "series md") auto
qed

theorem parseOpf_unparsable_seriesIndex_witness:
  "\<exists>md. parseOpf (Some exampleUnparsableIndex) = Inr md \<and> seriesIndex md = Some NaN
     \<and> series md = Some (js ''Books'')
     \<and> calculateTargetPath md = (js ''Books'', js ''Books - NaN.epub'')"
proof -
  have parsed: "parseOpf (Some exampleUnparsableIndex) = Inr (exampleUnparsableParsed (Some NaN))"
    by (simp add: exampleUnparsableIndex_def exampleUnparsableParsed_def evaluation)
  have entries: "dcMeta exampleUnparsableIndex
        = Some [\<lparr> metaName = js ''calibre:series'', metaContent = js ''Books'' \<rparr>,
                \<lparr> metaName = js ''calibre:series_index'', metaContent = js ''abc'' \<rparr>]"
    by (simp add: exampleUnparsableIndex_def)
  have found: "find (\<lambda>e. metaName e = js ''calibre:series_index'')
          [\<lparr> metaName = js ''calibre:series'', metaContent = js ''Books'' \<rparr>,
           \<lparr> metaName = js ''calibre:series_index'', metaContent = js ''abc'' \<rparr>]
        = Some \<lparr> metaName = js ''calibre:series_index'', metaContent = js ''abc'' \<rparr>"
    by (simp add: js_def)
  have unparsable:
    "parseFloat (metaContent \<lparr> metaName = js ''calibre:series_index'', metaContent = js ''abc'' \<rparr>)
       = NaN"
    by (simp add: evaluation)
  from parseOpf_unparsable_seriesIndex [OF entries found unparsable]
  obtain md where md: "parseOpf (Some exampleUnparsableIndex) = Inr md"
    and idx: "seriesIndex md = Some NaN"
    and path: "(case series md of
        None \<Rightarrow> calculateTargetPath md = calculateTargetPath (md\<lparr>seriesIndex := None\<rparr>)
      | Some s \<Rightarrow>
          if s = [] then calculateTargetPath md = calculateTargetPath (md\<lparr>seriesIndex := None\<rparr>)
          else calculateTargetPath md = (sanitize s, sanitize s @ js '' - NaN.epub''))"
    by blast
  from md parsed have "md = exampleUnparsableParsed (Some NaN)" by simp
  then have ser: "series md = Some (js ''Books'')"
    by (simp add: exampleUnparsableParsed_def)
  have "js ''Books'' \<noteq> []" by (simp add: js_def)
  with path ser have
    "calculateTargetPath md = (sanitize (js ''Books''), sanitize (js ''Books'') @ js '' - NaN.epub'')"
    by simp
  moreover have "sanitize (js ''Books'') = js ''Books''"
    by (simp add: evaluation)
  ultimately have "calculateTargetPath md = (js ''Books'', js ''Books - NaN.epub'')"
    by (simp add: js_def)
  with md idx ser show ?thesis by blast
qed

text \<open>
  Claim C4 as stated fails: with the series \<^verbatim>\<open>Books\<close> and the index content
  \<^verbatim>\<open>abc\<close> the target is \<^verbatim>\<open>Books/Books - NaN.epub\<close>, not the title and
  creator naming that the same metadata without index gets.
\<close>

theorem calculateTargetPath_keeps_NaN_index:
  "parseOpf (Some exampleUnparsableIndex) = Inr (exampleUnparsableParsed (Some NaN))
   \<and> calculateTargetPath (exampleUnparsableParsed (Some NaN))
       = (js ''Books'', js ''Books - NaN.epub'')
   \<and> calculateTargetPath (exampleUnparsableParsed None)
       = (js ''First Book - John Smith'', js ''First Book - John Smith.epub'')
   \<and> calculateTargetPath (exampleUnparsableParsed (Some NaN))
       \<noteq> calculateTargetPath (exampleUnparsableParsed None)"
  by (simp add: exampleUnparsableIndex_def exampleUnparsableParsed_def evaluation)


section \<open>The file system: lemmas\<close>

lemma js_slash: "js ''/'' = [47]"
  by (simp add: js_def)

lemma split_nonempty: "split sep s \<noteq> []"
  by (induction s) (auto split: list.splits)

lemma split_no_separator: "sep \<notin> set s \<Longrightarrow> split sep s = [s]"
  by (induction s) auto

lemma split_at_separator: "sep \<notin> set a \<Longrightarrow> split sep (a @ sep # b) = a # split sep b"
  by (induction a) (auto split: list.splits simp: split_nonempty)

lemma split_pieces: "x \<in> set (split sep s) \<Longrightarrow> sep \<notin> set x"
proof (induction s arbitrary: x)
  case Nil
  then show ?case by simp
next
  case (Cons c s)
  show ?case
  proof (cases "c = sep")
    case True
    with Cons show ?thesis by auto
  next
    case False
    obtain p ps where ps: "split sep s = p # ps"
      using split_nonempty[of sep s] by (cases "split sep s") auto
    with Cons.prems False have "x = c # p \<or> x \<in> set ps" by simp
    then show ?thesis
    proof
      assume "x = c # p"
      moreover have "sep \<notin> set p" using Cons.IH[of p] ps by simp
      ultimately show ?thesis using False by simp
    next
      assume "x \<in> set ps"
      then show ?thesis using Cons.IH[of x] ps by simp
    qed
  qed
qed

lemma pathNames_two:
  "d \<noteq> [] \<Longrightarrow> f \<noteq> [] \<Longrightarrow> 47 \<notin> set d \<Longrightarrow> 47 \<notin> set f \<Longrightarrow> pathNames (47 # d @ 47 # f) = [d, f]"
  by (simp add: pathNames_def split_at_separator split_no_separator)

lemma pathNames_doubled:
  "f \<noteq> [] \<Longrightarrow> 47 \<notin> set f \<Longrightarrow> pathNames (47 # 47 # f) = [f]"
  by (simp add: pathNames_def split_no_separator)

lemma pathNames_one:
  "d \<noteq> [] \<Longrightarrow> 47 \<notin> set d \<Longrightarrow> pathNames (47 # d) = [d]"
  by (simp add: pathNames_def split_no_separator)

lemma pathNames_slash: "pathNames [47] = []"
  by (simp add: pathNames_def)

lemma pathNames_valid:
  "x \<in> set (pathNames rest) \<Longrightarrow> x \<noteq> [] \<and> 47 \<notin> set x"
  by (auto simp: pathNames_def dest: split_pieces)

lemma startsWith_append: "startsWith (p @ rest) p"
  by (simp add: startsWith_def)

lemma resolve_target:
  assumes "validName f" and "d = [] \<or> validName d"
  shows "resolve w (outDir w @ js ''/'' @ d @ js ''/'' @ f) = Some (targetLocation d f)"
proof (cases "d = []")
  case True
  with assms(1) show ?thesis
    by (auto simp: resolve_def js_slash startsWith_append pathNames_doubled validName_def
        targetLocation_def Let_def)
next
  case False
  with assms show ?thesis
    by (auto simp: resolve_def js_slash startsWith_append pathNames_two validName_def
        targetLocation_def Let_def)
qed

lemma resolve_directory:
  assumes "validName d"
  shows "resolve w (outDir w @ js ''/'' @ d) = Some (RootLevel d)"
  using assms
  by (auto simp: resolve_def js_slash startsWith_append pathNames_one validName_def Let_def)

lemma resolve_root: "resolve w (outDir w @ js ''/'') = Some TargetRoot"
  by (simp add: resolve_def js_slash startsWith_append pathNames_slash Let_def)

lemma resolve_names:
  assumes "resolve w p = Some l"
  shows "pathNames (drop (length (outDir w)) p) =
           (case l of TargetRoot \<Rightarrow> [] | RootLevel x \<Rightarrow> [x] | InDirectory d f \<Rightarrow> [d, f])
         \<and> js ''.'' \<notin> set (pathNames (drop (length (outDir w)) p))
         \<and> js ''..'' \<notin> set (pathNames (drop (length (outDir w)) p))"
  using assms by (auto simp: resolve_def Let_def split: if_splits list.splits)

lemma resolve_RootLevel_valid:
  assumes "resolve w p = Some (RootLevel x)"
  shows "validName x"
proof -
  from resolve_names[OF assms] have n: "pathNames (drop (length (outDir w)) p) = [x]"
    and dots: "js ''.'' \<noteq> x" "js ''..'' \<noteq> x" by auto
  from n have "x \<in> set (pathNames (drop (length (outDir w)) p))" by simp
  from pathNames_valid[OF this] dots show ?thesis by (auto simp: validName_def)
qed

lemma resolve_InDirectory_valid:
  assumes "resolve w p = Some (InDirectory d f)"
  shows "validName d \<and> validName f"
proof -
  from resolve_names[OF assms] have n: "pathNames (drop (length (outDir w)) p) = [d, f]"
    and dots: "js ''.'' \<noteq> d" "js ''..'' \<noteq> d" "js ''.'' \<noteq> f" "js ''..'' \<noteq> f" by auto
  from n have "d \<in> set (pathNames (drop (length (outDir w)) p))"
    and "f \<in> set (pathNames (drop (length (outDir w)) p))" by simp_all
  from pathNames_valid[OF this(1)] pathNames_valid[OF this(2)] dots show ?thesis
    by (auto simp: validName_def)
qed

lemma resolve_outDir: "outDir w' = outDir w \<Longrightarrow> resolve w' p = resolve w p"
  by (simp add: resolve_def)

lemma unusedFilePath_relative:
  assumes "47 \<notin> set d" and "47 \<notin> set f"
  shows "unusedFilePath w (d @ js ''/'' @ f) = outDir w @ js ''/'' @ d @ js ''/'' @ f"
  using assms
  by (simp add: unusedFilePath_def js_slash split_at_separator split_no_separator piece_def Let_def)

lemma safeRoot_guard:
  assumes "safeRoot w"
  shows "\<not> (length (filter (\<lambda>c. c = 47) (outDir w @ js ''/'' @ d @ js ''/'' @ f)) < 2
           \<or> startsWith (outDir w @ js ''/'' @ d @ js ''/'' @ f) (js ''//''))"
proof -
  obtain c cs where o: "outDir w = c # cs"
    using assms by (cases "outDir w") (auto simp: safeRoot_def)
  have "\<not> startsWith (outDir w @ js ''/'' @ d @ js ''/'' @ f) (js ''//'')"
    using assms o by (cases cs) (auto simp: safeRoot_def startsWith_def js_def)
  then show ?thesis by (simp add: js_slash)
qed

lemma relative_path_eq:
  assumes "d @ js ''/'' @ f = d' @ js ''/'' @ f'" and "47 \<notin> set d" and "47 \<notin> set d'"
  shows "d = d' \<and> f = f'"
proof -
  have "split 47 (d @ 47 # f) = d # split 47 f" using assms(2) by (rule split_at_separator)
  moreover have "split 47 (d' @ 47 # f') = d' # split 47 f'" using assms(3) by (rule split_at_separator)
  ultimately have "d = d'" using assms(1) by (simp add: js_slash)
  with assms(1) show ?thesis by simp
qed

lemma isAllowed_not_special: "isAllowed c \<Longrightarrow> c \<noteq> 47 \<and> c \<noteq> 46"
  by (auto simp: isAllowed_def)

lemma sanitize_chars: "c \<in> set (sanitize s) \<Longrightarrow> isAllowed c"
  by (simp add: sanitize_def stripDisallowed_def)

lemma sanitizedOr_nonempty: "fallback \<noteq> [] \<Longrightarrow> sanitizedOr x fallback \<noteq> []"
  by (auto simp: sanitizedOr_def split: option.splits)

lemma decimalDigits_chars: "c \<in> set (decimalDigits m) \<Longrightarrow> 48 \<le> c \<and> c \<le> 57"
proof (induction m rule: decimalDigits.induct)
  case (1 m)
  show ?case
  proof (cases "m < 10")
    case True
    with 1(2) show ?thesis by (subst (asm) decimalDigits.simps) auto
  next
    case False
    have "m mod 10 < 10" by simp
    with 1 False show ?thesis by (subst (asm) (2) decimalDigits.simps) auto
  qed
qed

lemma decimalDigits_no_slash: "47 \<notin> set (decimalDigits m)"
  using decimalDigits_chars[of 47 m] by auto

lemma numberToString_no_slash: "47 \<notin> set (numberToString x)"
proof (cases x)
  case NaN
  then show ?thesis by (simp add: numberToString_def js_def)
next
  case (Infinity neg)
  then show ?thesis by (simp add: numberToString_def js_def)
next
  case (Finite neg s n)
  have t: "47 \<notin> set (take k (decimalDigits s))" for k
    using decimalDigits_no_slash[of s] by (auto dest: in_set_takeD)
  have d: "47 \<notin> set (drop k (decimalDigits s))" for k
    using decimalDigits_no_slash[of s] by (auto dest: in_set_dropD)
  from Finite t d show ?thesis
    by (auto simp: numberToString_def js_def Let_def decimalDigits_no_slash)
qed

lemma padStart_no_slash: "47 \<notin> set str \<Longrightarrow> 47 \<notin> set (padStart 2 (js ''0'') str)"
  by (simp add: padStart_zero)

lemma sanitize_plain: "47 \<notin> set (sanitize s) \<and> 46 \<notin> set (sanitize s)"
  using sanitize_chars isAllowed_not_special by blast

lemma sanitizedOr_plain:
  assumes "47 \<notin> set fallback \<and> 46 \<notin> set fallback"
  shows "47 \<notin> set (sanitizedOr x fallback) \<and> 46 \<notin> set (sanitizedOr x fallback)"
  using assms sanitize_plain by (auto simp: sanitizedOr_def split: option.splits)

lemma stem_plain:
  "47 \<notin> set (sanitizedOr (title md) (js ''Unknown Title'') @ js '' - ''
             @ sanitizedOr (creator md) (js ''Unknown Creator''))
   \<and> 46 \<notin> set (sanitizedOr (title md) (js ''Unknown Title'') @ js '' - ''
             @ sanitizedOr (creator md) (js ''Unknown Creator''))"
proof -
  have t: "47 \<notin> set (js ''Unknown Title'') \<and> 46 \<notin> set (js ''Unknown Title'')"
    by (simp add: js_def)
  have c: "47 \<notin> set (js ''Unknown Creator'') \<and> 46 \<notin> set (js ''Unknown Creator'')"
    by (simp add: js_def)
  have m: "47 \<notin> set (js '' - '') \<and> 46 \<notin> set (js '' - '')" by (simp add: js_def)
  from sanitizedOr_plain[OF t, of "title md"] sanitizedOr_plain[OF c, of "creator md"] m
  show ?thesis by simp
qed

lemma plain_validName:
  assumes "47 \<notin> set d \<and> 46 \<notin> set d" and "d \<noteq> []"
  shows "validName d"
  using assms by (auto simp: validName_def js_def)

lemma epub_validName:
  assumes "47 \<notin> set x"
  shows "validName (x @ js ''.epub'')"
proof -
  have "length (x @ js ''.epub'') \<ge> 5" by (simp add: js_def)
  then have "x @ js ''.epub'' \<noteq> js ''.''" and "x @ js ''.epub'' \<noteq> js ''..''"
    by (auto simp: js_def dest!: arg_cong[where f = length])
  then show ?thesis using assms by (simp add: validName_def js_def)
qed

lemma calculateTargetPath_names:
  assumes "calculateTargetPath md = (d, f)"
  shows "(d = [] \<or> validName d) \<and> validName f \<and> 46 \<notin> set d \<and> 46 \<in> set f"
proof -
  let ?stem = "sanitizedOr (title md) (js ''Unknown Title'') @ js '' - ''
             @ sanitizedOr (creator md) (js ''Unknown Creator'')"
  have dash: "47 \<notin> set (js '' - '')" by (simp add: js_def)
  have dot: "46 \<in> set (js ''.epub'')" by (simp add: js_def)
  consider (fallback) "d = ?stem" "f = ?stem @ js ''.epub''"
    | (series) s idx where "d = sanitize s"
        "f = (sanitize s @ js '' - '' @ padStart 2 (js ''0'') (numberToString idx)) @ js ''.epub''"
    using assms by (auto simp: calculateTargetPath_def Let_def split: option.splits if_splits)
  then show ?thesis
  proof cases
    case fallback
    have plain: "47 \<notin> set ?stem \<and> 46 \<notin> set ?stem" by (rule stem_plain)
    have ne: "?stem \<noteq> []" by (simp add: js_def)
    from plain have "47 \<notin> set ?stem" by simp
    from epub_validName[OF this] plain_validName[OF plain ne] plain fallback dot
    show ?thesis by simp
  next
    case series
    have plain: "47 \<notin> set (sanitize s) \<and> 46 \<notin> set (sanitize s)" by (rule sanitize_plain)
    with dash padStart_no_slash[OF numberToString_no_slash[of idx]]
    have "47 \<notin> set (sanitize s @ js '' - '' @ padStart 2 (js ''0'') (numberToString idx))"
      by simp
    from epub_validName[OF this] plain_validName[OF plain] plain series dot
    show ?thesis by auto
  qed
qed

lemma calculateTargetPath_resolve:
  assumes "calculateTargetPath md = (d, f)"
  shows "resolve w (outDir w @ js ''/'' @ d @ js ''/'' @ f) = Some (targetLocation d f)"
  using calculateTargetPath_names[OF assms] by (simp add: resolve_target)

lemma calculateTargetPath_directory:
  assumes "calculateTargetPath md = (d, f)"
  shows "resolve w (outDir w @ js ''/'' @ d) = Some (if d = [] then TargetRoot else RootLevel d)"
  using calculateTargetPath_names[OF assms] by (auto simp: resolve_directory resolve_root)

subsection \<open>Association lists\<close>

lemma map_of_append_new:
  "map_of t k = None \<Longrightarrow> map_of (t @ [(k, v)]) k' = (if k' = k then Some v else map_of t k')"
  by (auto simp: map_add_def split: option.splits)

lemma list_all_update:
  "list_all P al \<Longrightarrow> P (k, v) \<Longrightarrow> list_all P (AList.update k v al)"
  by (induction al) auto

lemma list_all_delete: "list_all P al \<Longrightarrow> list_all P (AList.delete k al)"
  by (induction al) auto

lemma distinct_append_new:
  "distinct (map fst t) \<Longrightarrow> map_of t k = None \<Longrightarrow> distinct (map fst (t @ [(k, v)]))"
  by (simp add: map_of_eq_None_iff)

lemma sum_list_update:
  "map_of t k = Some old \<Longrightarrow>
     sum_list (map (\<lambda>(n, e). g e) (AList.update k v t)) + g old
       = sum_list (map (\<lambda>(n, e). g e) t) + (g v :: nat)"
proof (induction t)
  case Nil
  then show ?case by simp
next
  case (Cons a t)
  obtain n e where a: "a = (n, e)" by (cases a)
  show ?case
  proof (cases "n = k")
    case True
    with Cons.prems a have "old = e" by simp
    with True a show ?thesis by simp
  next
    case False
    with Cons.prems a have "map_of t k = Some old" by simp
    then have ih: "sum_list (map (\<lambda>(n, e). g e) (AList.update k v t)) + g old
       = sum_list (map (\<lambda>(n, e). g e) t) + g v" by (rule Cons.IH)
    have l: "sum_list (map (\<lambda>(n, e). g e) (AList.update k v (a # t)))
       = g e + sum_list (map (\<lambda>(n, e). g e) (AList.update k v t))"
      using False a by simp
    have r: "sum_list (map (\<lambda>(n, e). g e) (a # t)) = g e + sum_list (map (\<lambda>(n, e). g e) t)"
      using a by simp
    from ih l r show ?thesis by linarith
  qed
qed

lemma sum_list_delete_le:
  "sum_list (map (\<lambda>(n, e). g e) (AList.delete k t)) \<le> sum_list (map (\<lambda>(n, e). (g e :: nat)) t)"
  by (induction t) auto

lemma directoryLinks_delete_other:
  "map_of es f = Some (RegularFile i) \<Longrightarrow> j \<noteq> i \<Longrightarrow> distinct (map fst es) \<Longrightarrow>
     directoryLinks j (AList.delete f es) = directoryLinks j es"
proof (induction es)
  case Nil
  then show ?case by simp
next
  case (Cons a es)
  obtain n e where a: "a = (n, e)" by (cases a)
  show ?case
  proof (cases "n = f")
    case True
    with Cons.prems a have "f \<notin> fst ` set es" and e: "e = RegularFile i" by auto
    then have "AList.delete f es = es" by (simp add: delete_notin_dom delete_id)
    with True a e Cons.prems(2) show ?thesis by (simp add: directoryLinks_def)
  next
    case False
    with Cons.prems a have "map_of es f = Some (RegularFile i)" and "distinct (map fst es)"
      by simp_all
    from Cons.IH[OF this(1) Cons.prems(2) this(2)] False a show ?thesis
      by (simp add: directoryLinks_def)
  qed
qed

lemma sum_list_delete_other:
  "map_of t k = Some old \<Longrightarrow> g old = 0 \<Longrightarrow> distinct (map fst t) \<Longrightarrow>
     sum_list (map (\<lambda>(n, e). g e) (AList.delete k t)) = sum_list (map (\<lambda>(n, e). (g e :: nat)) t)"
proof (induction t)
  case Nil
  then show ?case by simp
next
  case (Cons a t)
  obtain n e where a: "a = (n, e)" by (cases a)
  show ?case
  proof (cases "n = k")
    case True
    with Cons.prems a have "k \<notin> fst ` set t" and "g e = 0" by auto
    then have "AList.delete k t = t" by (simp add: delete_notin_dom delete_id)
    with True a \<open>g e = 0\<close> show ?thesis by simp
  next
    case False
    with Cons a show ?thesis by simp
  qed
qed

subsection \<open>Link counts\<close>

lemma directoryLinks_delete_le: "directoryLinks i (AList.delete f es) \<le> directoryLinks i es"
  by (induction es) (auto simp: directoryLinks_def)

lemma directoryLinks_append_file:
  "directoryLinks i (es @ [(f, RegularFile j)]) = directoryLinks i es + (if j = i then 1 else 0)"
  by (simp add: directoryLinks_def)

lemma directoryLinks_append_subdirectory:
  "directoryLinks i (es @ [(x, Subdirectory)]) = directoryLinks i es"
  by (simp add: directoryLinks_def)

lemma directoryLinks_present:
  "map_of es f = Some (RegularFile i) \<Longrightarrow> 1 \<le> directoryLinks i es"
proof -
  assume "map_of es f = Some (RegularFile i)"
  then have "(f, RegularFile i) \<in> set es" by (rule map_of_SomeD)
  then have "filter (\<lambda>(fileName, file). file = RegularFile i) es \<noteq> []"
    by (auto simp: filter_empty_conv)
  then show ?thesis by (simp add: directoryLinks_def Suc_le_eq)
qed

lemma rootEntryLinks_present:
  assumes "map_of t x = Some e"
  shows "rootEntryLinks i e \<le> sum_list (map (\<lambda>(n, e). rootEntryLinks i e) t)"
proof -
  from assms have "(x, e) \<in> set t" by (rule map_of_SomeD)
  then have "rootEntryLinks i e \<in> set (map (\<lambda>(n, e). rootEntryLinks i e) t)" by force
  then show ?thesis by (simp add: member_le_sum_list)
qed

lemma targetLinks_present:
  assumes "entryAt w l = Some (FileEntry i)"
  shows "1 \<le> targetLinks w i"
proof (cases l)
  case TargetRoot
  with assms show ?thesis by simp
next
  case (RootLevel x)
  with assms have "map_of (targetTree w) x = Some (RootFile i)"
    by (auto split: option.splits targetRootEntry.splits)
  from rootEntryLinks_present[OF this, of i] show ?thesis by (simp add: targetLinks_def)
next
  case (InDirectory d f)
  with assms obtain es where d: "map_of (targetTree w) d = Some (RootDirectory es)"
    and f: "map_of es f = Some (RegularFile i)"
    by (auto split: option.splits targetRootEntry.splits directoryEntry.splits)
  from rootEntryLinks_present[OF d, of i] directoryLinks_present[OF f] show ?thesis
    by (simp add: targetLinks_def)
qed

subsection \<open>Worlds that differ in the recorded calls only\<close>

lemma entryAt_same_tree: "targetTree w' = targetTree w \<Longrightarrow> entryAt w' l = entryAt w l"
  by (cases l) simp_all

lemma fileAt_same_tree: "targetTree w' = targetTree w \<Longrightarrow> fileAt w' l = fileAt w l"
  using entryAt_same_tree[of w' w l] by (simp add: fileAt_def)

lemma targetLinks_same_tree: "targetTree w' = targetTree w \<Longrightarrow> targetLinks w' i = targetLinks w i"
  by (simp add: targetLinks_def)

lemma wellFormedTarget_same_tree:
  "targetTree w' = targetTree w \<Longrightarrow> wellFormedTarget w' = wellFormedTarget w"
  by (simp add: wellFormedTarget_def)

lemma sameSetting_refl: "sameSetting w w"
  by (simp add: sameSetting_def)

lemma sameSetting_trans: "sameSetting w w' \<Longrightarrow> sameSetting w' w'' \<Longrightarrow> sameSetting w w''"
  by (simp add: sameSetting_def)

lemma sameSetting_sourceInodes: "sameSetting w w' \<Longrightarrow> sourceInodes w' = sourceInodes w"
  unfolding sameSetting_def sourceInodes_def by (elim conjE) simp

lemma sameSetting_readSourceFiles: "sameSetting w w' \<Longrightarrow> readSourceFiles w' = readSourceFiles w"
  unfolding sameSetting_def readSourceFiles_def by (elim conjE) simp

lemma sameSetting_outsideLinks: "sameSetting w w' \<Longrightarrow> outsideLinks w' i = outsideLinks w i"
  using sameSetting_sourceInodes[of w w']
  by (simp add: outsideLinks_def sourceLinks_def sameSetting_def)

lemma sameSetting_resolve: "sameSetting w w' \<Longrightarrow> resolve w' p = resolve w p"
  unfolding sameSetting_def resolve_def by (elim conjE) simp

lemma sameSetting_safeRoot: "sameSetting w w' \<Longrightarrow> safeRoot w' = safeRoot w"
  by (simp add: sameSetting_def safeRoot_def)

lemma sameSetting_outDir: "sameSetting w w' \<Longrightarrow> outDir w' = outDir w"
  by (simp add: sameSetting_def)

lemma sameSetting_noFaults: "sameSetting w w' \<Longrightarrow> noFaults w' = noFaults w"
  by (simp add: sameSetting_def noFaults_def)

lemma noFaults_call: "noFaults w \<Longrightarrow> faults w c = None"
  by (simp add: noFaults_def)

lemma regular_call: "regular w \<Longrightarrow> faults w c = None"
  by (simp add: regular_def noFaults_def)

lemma regular_safeRoot: "regular w \<Longrightarrow> safeRoot w"
  by (simp add: regular_def)

lemma sameSetting_regular: "sameSetting w w' \<Longrightarrow> regular w' = regular w"
  using sameSetting_safeRoot[of w w'] sameSetting_noFaults[of w w'] by (simp add: regular_def)

lemma nlinkOf_outside: "nlinkOf w i = targetLinks w i + outsideLinks w i"
  by (simp add: nlinkOf_def outsideLinks_def)


subsection \<open>Calls that change nothing\<close>

lemma quietly_refl: "quietly w w"
proof -
  have "w = w\<lparr>calls := calls w @ []\<rparr>" by simp
  moreover have "filter performed [] = []" by simp
  ultimately show ?thesis unfolding quietly_def by blast
qed

lemma quietly_call:
  "\<not> performed (c, r) \<Longrightarrow> quietly w (w\<lparr>calls := calls w @ [(c, r)]\<rparr>)"
proof -
  assume "\<not> performed (c, r)"
  then have "filter performed [(c, r)] = []" by simp
  then show ?thesis unfolding quietly_def by blast
qed

lemma quietly_trans:
  assumes "quietly w w'" and "quietly w' w''"
  shows "quietly w w''"
proof -
  from assms(1) obtain cs where 1: "w' = w\<lparr>calls := calls w @ cs\<rparr>"
    and 2: "filter performed cs = []" unfolding quietly_def by blast
  from assms(2) obtain ds where 3: "w'' = w'\<lparr>calls := calls w' @ ds\<rparr>"
    and 4: "filter performed ds = []" unfolding quietly_def by blast
  from 1 3 have "w'' = w\<lparr>calls := calls w @ (cs @ ds)\<rparr>" by simp
  moreover from 2 4 have "filter performed (cs @ ds) = []" by simp
  ultimately show ?thesis unfolding quietly_def by blast
qed

lemma quietly_tree: "quietly w w' \<Longrightarrow> targetTree w' = targetTree w"
  by (auto simp: quietly_def)

lemma quietly_sameSetting: "quietly w w' \<Longrightarrow> sameSetting w w'"
  by (auto simp: quietly_def sameSetting_def)

lemma quietly_calls:
  "quietly w w' \<Longrightarrow> \<exists>cs. calls w' = calls w @ cs \<and> filter performed cs = []"
  by (auto simp: quietly_def)

lemma quietly_entryAt: "quietly w w' \<Longrightarrow> entryAt w' l = entryAt w l"
  using quietly_tree[of w w'] entryAt_same_tree[of w' w l] by simp

lemma quietly_fileAt: "quietly w w' \<Longrightarrow> fileAt w' l = fileAt w l"
  using quietly_tree[of w w'] fileAt_same_tree[of w' w l] by simp


lemma wellFormed_entry:
  assumes "wellFormedTarget w" and "map_of (targetTree w) d = Some (RootDirectory es)"
  shows "validName d \<and> validDirectory es"
proof -
  from assms(2) have "(d, RootDirectory es) \<in> set (targetTree w)" by (rule map_of_SomeD)
  with assms(1) have "validRootEntry (d, RootDirectory es)"
    by (auto simp: wellFormedTarget_def list_all_iff)
  then show ?thesis by simp
qed

lemma wellFormed_update:
  assumes "wellFormedTarget w" and "map_of (targetTree w) d = Some (RootDirectory es)"
    and "validDirectory es'" and "targetTree w' = AList.update d (RootDirectory es') (targetTree w)"
  shows "wellFormedTarget w'"
proof -
  from wellFormed_entry[OF assms(1,2)] assms(3) have "validRootEntry (d, RootDirectory es')" by simp
  with assms(1,4) show ?thesis
    by (simp add: wellFormedTarget_def distinct_update list_all_update)
qed

lemma wellFormed_append:
  assumes "wellFormedTarget w" and "map_of (targetTree w) x = None" and "validRootEntry (x, e)"
    and "targetTree w' = targetTree w @ [(x, e)]"
  shows "wellFormedTarget w'"
  using assms by (simp add: wellFormedTarget_def map_of_eq_None_iff)

lemma validDirectory_delete: "validDirectory es \<Longrightarrow> validDirectory (AList.delete f es)"
  by (simp add: validDirectory_def distinct_delete list_all_delete)

lemma validDirectory_append:
  "validDirectory es \<Longrightarrow> map_of es f = None \<Longrightarrow> validName f \<Longrightarrow> validDirectory (es @ [(f, e)])"
  by (simp add: validDirectory_def map_of_eq_None_iff)

lemma targetLinks_update:
  assumes "map_of (targetTree w) d = Some (RootDirectory es)"
    and "targetTree w' = AList.update d (RootDirectory es') (targetTree w)"
  shows "targetLinks w' j + directoryLinks j es = targetLinks w j + directoryLinks j es'"
  using sum_list_update[OF assms(1), of "rootEntryLinks j" "RootDirectory es'"] assms(2)
  by (simp add: targetLinks_def)

subsection \<open>\<^verbatim>\<open>unlink\<close>\<close>

lemma unlink_file:
  assumes "resolve w p = Some l" and "entryAt w l = Some (FileEntry i)"
    and "faults w (Unlink p) = None"
  obtains w' where "unlink p w = (None, w')" and "sameSetting w w'"
    and "calls w' = calls w @ [(Unlink p, None)]" and "entryAt w' l = None"
    and "\<And>l'. l' \<noteq> l \<Longrightarrow> entryAt w' l' = entryAt w l'"
    and "\<And>j. targetLinks w' j \<le> targetLinks w j"
    and "wellFormedTarget w \<Longrightarrow> wellFormedTarget w'"
    and "\<And>j. wellFormedTarget w \<Longrightarrow> j \<noteq> i \<Longrightarrow> targetLinks w' j = targetLinks w j"
proof (cases l)
  case TargetRoot
  with assms(2) show ?thesis by simp
next
  case (RootLevel x)
  with assms(2) have x: "map_of (targetTree w) x = Some (RootFile i)"
    by (auto split: option.splits targetRootEntry.splits)
  define w' where "w' = w\<lparr>calls := calls w @ [(Unlink p, None)],
     targetTree := AList.delete x (targetTree w)\<rparr>"
  have tree: "targetTree w' = AList.delete x (targetTree w)" by (simp add: w'_def)
  have 1: "unlink p w = (None, w')"
    using assms(1,3) RootLevel x by (simp add: unlink_def success_def w'_def)
  have 2: "sameSetting w w'" by (simp add: sameSetting_def w'_def)
  have 3: "calls w' = calls w @ [(Unlink p, None)]" by (simp add: w'_def)
  have 4: "entryAt w' l = None" using RootLevel by (simp add: tree delete_conv')
  have 5: "entryAt w' l' = entryAt w l'" if "l' \<noteq> l" for l'
    using that RootLevel x by (cases l') (auto simp: tree delete_conv')
  have 6: "targetLinks w' j \<le> targetLinks w j" for j
    by (simp add: targetLinks_def tree sum_list_delete_le)
  have 7: "wellFormedTarget w'" if "wellFormedTarget w"
    using that by (simp add: wellFormedTarget_def tree distinct_delete list_all_delete)
  have 8: "targetLinks w' j = targetLinks w j" if "wellFormedTarget w" and "j \<noteq> i" for j
  proof -
    from that(1) have "distinct (map fst (targetTree w))" by (simp add: wellFormedTarget_def)
    moreover from that(2) have "rootEntryLinks j (RootFile i) = 0" by simp
    ultimately show ?thesis
      using sum_list_delete_other[OF x, of "rootEntryLinks j"] by (simp add: targetLinks_def tree)
  qed
  from that[OF 1 2 3 4 5 6 7 8] show ?thesis .
next
  case (InDirectory d f)
  with assms(2) obtain es where d: "map_of (targetTree w) d = Some (RootDirectory es)"
    and f: "map_of es f = Some (RegularFile i)"
    by (auto split: option.splits targetRootEntry.splits directoryEntry.splits)
  define w' where "w' = w\<lparr>calls := calls w @ [(Unlink p, None)],
     targetTree := AList.update d (RootDirectory (AList.delete f es)) (targetTree w)\<rparr>"
  have tree: "targetTree w' = AList.update d (RootDirectory (AList.delete f es)) (targetTree w)"
    by (simp add: w'_def)
  have 1: "unlink p w = (None, w')"
    using assms(1,3) InDirectory d f by (simp add: unlink_def success_def w'_def)
  have 2: "sameSetting w w'" by (simp add: sameSetting_def w'_def)
  have 3: "calls w' = calls w @ [(Unlink p, None)]" by (simp add: w'_def)
  have 4: "entryAt w' l = None" using InDirectory by (simp add: tree update_conv' delete_conv')
  have 5: "entryAt w' l' = entryAt w l'" if "l' \<noteq> l" for l'
    using that InDirectory d by (cases l') (auto simp: tree update_conv' delete_conv')
  have 6: "targetLinks w' j \<le> targetLinks w j" for j
    using targetLinks_update[OF d tree, of j] directoryLinks_delete_le[of j f es] by linarith
  have 7: "wellFormedTarget w'" if "wellFormedTarget w"
  proof -
    from wellFormed_entry[OF that d] have "validDirectory (AList.delete f es)"
      by (simp add: validDirectory_delete)
    from wellFormed_update[OF that d this tree] show ?thesis .
  qed
  have 8: "targetLinks w' j = targetLinks w j" if "wellFormedTarget w" and "j \<noteq> i" for j
  proof -
    from wellFormed_entry[OF that(1) d] have "distinct (map fst es)"
      by (simp add: validDirectory_def)
    from directoryLinks_delete_other[OF f that(2) this] targetLinks_update[OF d tree, of j]
    show ?thesis by simp
  qed
  from that[OF 1 2 3 4 5 6 7 8] show ?thesis .
qed

lemma unlink_no_file:
  assumes "resolve w p = Some l" and "\<forall>i. entryAt w l \<noteq> Some (FileEntry i)"
  shows "\<exists>e. unlink p w = (Some e, w\<lparr>calls := calls w @ [(Unlink p, Some e)]\<rparr>)"
  using assms
  by (cases l) (auto simp: unlink_def failure_def split: option.splits targetRootEntry.splits
      directoryEntry.splits)

lemma unlink_fault:
  assumes "faults w (Unlink p) = Some e"
  shows "unlink p w = (Some e, w\<lparr>calls := calls w @ [(Unlink p, Some e)]\<rparr>)"
  using assms by (simp add: unlink_def failure_def)

subsection \<open>\<^verbatim>\<open>link\<close>\<close>

lemma link_new:
  assumes "resolve w p = Some l" and "entryAt w l = None"
    and "map_of (sourceInodes w) src = Some i"
    and "case l of TargetRoot \<Rightarrow> False | RootLevel x \<Rightarrow> True
         | InDirectory d f \<Rightarrow> entryAt w (RootLevel d) = Some DirectoryEntry"
    and "faults w (Link src p) = None"
  obtains w' where "link src p w = (None, w')" and "sameSetting w w'"
    and "calls w' = calls w @ [(Link src p, None)]" and "entryAt w' l = Some (FileEntry i)"
    and "\<And>l'. l' \<noteq> l \<Longrightarrow> entryAt w' l' = entryAt w l'"
    and "\<And>j. j \<noteq> i \<Longrightarrow> targetLinks w' j = targetLinks w j"
    and "wellFormedTarget w \<Longrightarrow> wellFormedTarget w'"
    and "\<And>j. targetLinks w j \<le> targetLinks w' j"
proof (cases l)
  case TargetRoot
  with assms(4) show ?thesis by simp
next
  case (RootLevel x)
  with assms(2) have x: "map_of (targetTree w) x = None"
    by (auto split: option.splits targetRootEntry.splits)
  define w' where "w' = w\<lparr>calls := calls w @ [(Link src p, None)],
     targetTree := targetTree w @ [(x, RootFile i)]\<rparr>"
  have tree: "targetTree w' = targetTree w @ [(x, RootFile i)]" by (simp add: w'_def)
  have look: "map_of (targetTree w') k = (if k = x then Some (RootFile i) else map_of (targetTree w) k)"
    for k unfolding tree using x by (rule map_of_append_new)
  have 1: "link src p w = (None, w')"
    using assms(1,3,5) RootLevel x by (simp add: link_def success_def w'_def)
  have 2: "sameSetting w w'" by (simp add: sameSetting_def w'_def)
  have 3: "calls w' = calls w @ [(Link src p, None)]" by (simp add: w'_def)
  have 4: "entryAt w' l = Some (FileEntry i)" using RootLevel by (simp add: look)
  have 5: "entryAt w' l' = entryAt w l'" if "l' \<noteq> l" for l'
    using that RootLevel x by (cases l') (auto simp: look)
  have 6: "targetLinks w' j = targetLinks w j" if "j \<noteq> i" for j
    using that by (simp add: targetLinks_def tree)
  have 7: "wellFormedTarget w'" if "wellFormedTarget w"
  proof -
    from resolve_RootLevel_valid assms(1) RootLevel have "validRootEntry (x, RootFile i)" by simp
    from wellFormed_append[OF that x this tree] show ?thesis .
  qed
  have 8: "targetLinks w j \<le> targetLinks w' j" for j
    by (simp add: targetLinks_def tree)
  from that[OF 1 2 3 4 5 6 7 8] show ?thesis .
next
  case (InDirectory d f)
  with assms(4) obtain es where d: "map_of (targetTree w) d = Some (RootDirectory es)"
    by (auto split: option.splits targetRootEntry.splits)
  with assms(2) InDirectory have f: "map_of es f = None"
    by (auto split: option.splits directoryEntry.splits)
  define w' where "w' = w\<lparr>calls := calls w @ [(Link src p, None)],
     targetTree := AList.update d (RootDirectory (es @ [(f, RegularFile i)])) (targetTree w)\<rparr>"
  have tree: "targetTree w' = AList.update d (RootDirectory (es @ [(f, RegularFile i)])) (targetTree w)"
    by (simp add: w'_def)
  have look: "map_of (es @ [(f, RegularFile i)]) k = (if k = f then Some (RegularFile i) else map_of es k)"
    for k using f by (rule map_of_append_new)
  have 1: "link src p w = (None, w')"
    using assms(1,3,5) InDirectory d f by (simp add: link_def success_def w'_def)
  have 2: "sameSetting w w'" by (simp add: sameSetting_def w'_def)
  have 3: "calls w' = calls w @ [(Link src p, None)]" by (simp add: w'_def)
  have 4: "entryAt w' l = Some (FileEntry i)" using InDirectory by (simp add: tree update_conv' look del: map_of_append)
  have 5: "entryAt w' l' = entryAt w l'" if "l' \<noteq> l" for l'
    using that InDirectory d by (cases l') (auto simp: tree update_conv' look simp del: map_of_append)
  have 6: "targetLinks w' j = targetLinks w j" if "j \<noteq> i" for j
    using targetLinks_update[OF d tree, of j] that by (simp add: directoryLinks_append_file)
  have 7: "wellFormedTarget w'" if "wellFormedTarget w"
  proof -
    from resolve_InDirectory_valid assms(1) InDirectory have "validName f" by blast
    with wellFormed_entry[OF that d] f have "validDirectory (es @ [(f, RegularFile i)])"
      by (simp add: validDirectory_append)
    from wellFormed_update[OF that d this tree] show ?thesis .
  qed
  have 8: "targetLinks w j \<le> targetLinks w' j" for j
    using targetLinks_update[OF d tree, of j] by (simp add: directoryLinks_append_file)
  from that[OF 1 2 3 4 5 6 7 8] show ?thesis .
qed

subsection \<open>\<^verbatim>\<open>mkdir\<close>\<close>

lemma mkdir_root:
  assumes "resolve w p = Some TargetRoot" and "faults w (Mkdir p) = None"
  shows "mkdir p w = (None, w\<lparr>calls := calls w @ [(Mkdir p, None)]\<rparr>)"
  using assms by (simp add: mkdir_def success_def)

lemma mkdir_existing:
  assumes "resolve w p = Some (RootLevel d)" and "entryAt w (RootLevel d) = Some DirectoryEntry"
    and "faults w (Mkdir p) = None"
  shows "mkdir p w = (None, w\<lparr>calls := calls w @ [(Mkdir p, None)]\<rparr>)"
  using assms by (auto simp: mkdir_def success_def split: option.splits targetRootEntry.splits)

lemma mkdir_blocked:
  assumes "resolve w p = Some (RootLevel d)" and "entryAt w (RootLevel d) = Some (FileEntry i)"
  shows "\<exists>e. mkdir p w = (Some e, w\<lparr>calls := calls w @ [(Mkdir p, Some e)]\<rparr>)"
  using assms by (auto simp: mkdir_def failure_def split: option.splits targetRootEntry.splits)

lemma mkdir_new:
  assumes "resolve w p = Some (RootLevel d)" and "entryAt w (RootLevel d) = None"
    and "faults w (Mkdir p) = None"
  obtains w' where "mkdir p w = (None, w')" and "sameSetting w w'"
    and "calls w' = calls w @ [(Mkdir p, None)]" and "entryAt w' (RootLevel d) = Some DirectoryEntry"
    and "\<And>l'. l' \<noteq> RootLevel d \<Longrightarrow> entryAt w' l' = entryAt w l'"
    and "\<And>j. targetLinks w' j = targetLinks w j"
    and "wellFormedTarget w \<Longrightarrow> wellFormedTarget w'"
proof -
  from assms(2) have x: "map_of (targetTree w) d = None"
    by (auto split: option.splits targetRootEntry.splits)
  define w' where "w' = w\<lparr>calls := calls w @ [(Mkdir p, None)],
     targetTree := targetTree w @ [(d, RootDirectory [])]\<rparr>"
  have tree: "targetTree w' = targetTree w @ [(d, RootDirectory [])]" by (simp add: w'_def)
  have look: "map_of (targetTree w') k = (if k = d then Some (RootDirectory []) else map_of (targetTree w) k)"
    for k unfolding tree using x by (rule map_of_append_new)
  have 1: "mkdir p w = (None, w')"
    using assms(1,3) x by (simp add: mkdir_def success_def w'_def)
  have 2: "sameSetting w w'" by (simp add: sameSetting_def w'_def)
  have 3: "calls w' = calls w @ [(Mkdir p, None)]" by (simp add: w'_def)
  have 4: "entryAt w' (RootLevel d) = Some DirectoryEntry" by (simp add: look)
  have 5: "entryAt w' l' = entryAt w l'" if "l' \<noteq> RootLevel d" for l'
    using that x by (cases l') (auto simp: look)
  have 6: "targetLinks w' j = targetLinks w j" for j
    by (simp add: targetLinks_def tree directoryLinks_def)
  have 7: "wellFormedTarget w'" if "wellFormedTarget w"
  proof -
    from resolve_RootLevel_valid[OF assms(1)] have "validRootEntry (d, RootDirectory [])"
      by (simp add: validDirectory_def)
    from wellFormed_append[OF that x this tree] show ?thesis .
  qed
  from that[OF 1 2 3 4 5 6 7] show ?thesis .
qed

subsection \<open>\<^verbatim>\<open>stat\<close>\<close>

lemma stat_file:
  assumes "resolve w p = Some l" and "entryAt w l = Some (FileEntry i)"
    and "faults w (Stat p) = None"
  shows "stat p w = Inr (nlinkOf w i)"
  using assms
  by (cases l) (auto simp: stat_def split: option.splits targetRootEntry.splits directoryEntry.splits)

lemma stat_directory:
  assumes "resolve w p = Some l" and "entryAt w l = Some DirectoryEntry"
    and "faults w (Stat p) = None"
  shows "stat p w = Inr (directoryLinkCount w l)"
  using assms
  by (cases l) (auto simp: stat_def split: option.splits targetRootEntry.splits directoryEntry.splits)

lemma stat_missing:
  assumes "resolve w p = Some l" and "entryAt w l = None"
  shows "\<exists>e. stat p w = Inl e"
  using assms
  by (cases l) (auto simp: stat_def split: option.splits targetRootEntry.splits directoryEntry.splits)

subsection \<open>\<^verbatim>\<open>unlink\<close>, whatever its outcome\<close>

lemma unlink_elsewhere:
  assumes "resolve w p = Some l"
  shows "sameSetting w (snd (unlink p w))
     \<and> (\<forall>l'. l' \<noteq> l \<longrightarrow> entryAt (snd (unlink p w)) l' = entryAt w l')"
proof -
  have failed: ?thesis if "unlink p w = (Some e, w\<lparr>calls := calls w @ [(Unlink p, Some e)]\<rparr>)" for e
  proof -
    let ?w' = "w\<lparr>calls := calls w @ [(Unlink p, Some e)]\<rparr>"
    have "targetTree ?w' = targetTree w" by simp
    from entryAt_same_tree[OF this] have "\<forall>l'. entryAt ?w' l' = entryAt w l'" by blast
    moreover have "sameSetting w ?w'" by (simp add: sameSetting_def)
    ultimately show ?thesis using that by simp
  qed
  show ?thesis
  proof (cases "faults w (Unlink p)")
    case (Some e)
    from failed[OF unlink_fault[OF Some]] show ?thesis .
  next
    case None
    show ?thesis
    proof (cases "\<exists>i. entryAt w l = Some (FileEntry i)")
      case True
      then obtain i where i: "entryAt w l = Some (FileEntry i)" by blast
      show ?thesis
      proof (rule unlink_file[OF assms i None])
        fix w'
        assume "unlink p w = (None, w')" and "sameSetting w w'"
          and "\<And>l'. l' \<noteq> l \<Longrightarrow> entryAt w' l' = entryAt w l'"
        then show ?thesis by simp
      qed
    next
      case False
      then have "\<forall>i. entryAt w l \<noteq> Some (FileEntry i)" by simp
      from unlink_no_file[OF assms this] failed show ?thesis by blast
    qed
  qed
qed

lemma resolve_calls [simp]: "resolve (w\<lparr>calls := c\<rparr>) p = resolve w p"
  by (simp add: resolve_def)

lemma entryAt_calls [simp]: "entryAt (w\<lparr>calls := c\<rparr>) l = entryAt w l"
  by (cases l) simp_all

lemma fileAt_calls [simp]: "fileAt (w\<lparr>calls := c\<rparr>) l = fileAt w l"
  by (simp add: fileAt_def)

lemma sourceInodes_calls [simp]: "sourceInodes (w\<lparr>calls := c\<rparr>) = sourceInodes w"
  by (simp add: sourceInodes_def cong: sourceRootEntry.case_cong)

lemma nlinkOf_calls [simp]: "nlinkOf (w\<lparr>calls := c\<rparr>) i = nlinkOf w i"
  by (simp add: nlinkOf_def targetLinks_def sourceLinks_def)

lemma stat_calls [simp]: "stat p (w\<lparr>calls := c\<rparr>) = stat p w"
  by (auto simp: stat_def split: option.splits location.splits targetRootEntry.splits
      directoryEntry.splits)

lemma sameSetting_calls [simp]: "sameSetting w (w\<lparr>calls := c\<rparr>)"
  by (simp add: sameSetting_def)

lemma targetLinks_calls [simp]: "targetLinks (w\<lparr>calls := c\<rparr>) i = targetLinks w i"
  by (simp add: targetLinks_def)

lemma wellFormedTarget_calls [simp]: "wellFormedTarget (w\<lparr>calls := c\<rparr>) = wellFormedTarget w"
  by (simp add: wellFormedTarget_def)

lemma safeRoot_calls [simp]: "safeRoot (w\<lparr>calls := c\<rparr>) = safeRoot w"
  by (simp add: safeRoot_def)

lemma regular_calls [simp]: "regular (w\<lparr>calls := c\<rparr>) = regular w"
  by (simp add: regular_def noFaults_def)

lemma quietly_regular: "quietly w w' \<Longrightarrow> regular w' = regular w"
  using sameSetting_regular[OF quietly_sameSetting] .

lemma targetLocation_not_directory:
  assumes "calculateTargetPath md = (d, f)"
  shows "targetLocation d f \<noteq> RootLevel d"
  using calculateTargetPath_names[OF assms] by (auto simp: targetLocation_def)

lemma safeUnlink_target:
  assumes "safeRoot w"
  shows "safeUnlink (outDir w @ js ''/'' @ d @ js ''/'' @ f) w =
     (case unlink (outDir w @ js ''/'' @ d @ js ''/'' @ f) w of
        (Some e, w') \<Rightarrow> (Inl e, w')
      | (None, w') \<Rightarrow> (Inr True, w'))"
  using safeRoot_guard[OF assms, of d f] by (simp add: safeUnlink_def)

lemma linkFile_no_title: "\<not> hasTitle md \<Longrightarrow> linkFile src md w = (None, w)"
  by (auto simp: linkFile_def hasTitle_def)

lemma linkFile_unfold:
  assumes "hasTitle md" and "calculateTargetPath md = (d, f)"
  shows "linkFile src md w =
     (case mkdir (outDir w @ js ''/'' @ d) w of
        (Some e, w1) \<Rightarrow> (None, w1)
      | (None, w1) \<Rightarrow>
          (case stat (outDir w @ js ''/'' @ d @ js ''/'' @ f) w1 of
             Inl e \<Rightarrow> createLink src (outDir w @ js ''/'' @ d @ js ''/'' @ f) (d @ js ''/'' @ f) w1
           | Inr nlink \<Rightarrow>
               if nlink \<noteq> 0 \<and> nlink < 2 then
                 (case safeUnlink (outDir w @ js ''/'' @ d @ js ''/'' @ f) w1 of
                    (Inl e, w2) \<Rightarrow> (None, w2)
                  | (Inr False, w2) \<Rightarrow> (None, w2)
                  | (Inr True, w2) \<Rightarrow>
                      createLink src (outDir w @ js ''/'' @ d @ js ''/'' @ f) (d @ js ''/'' @ f) w2)
               else (Some (d @ js ''/'' @ f), w1)))"
  using assms by (auto simp: linkFile_def hasTitle_def Let_def)

lemma not_performed_failed [simp]: "\<not> performed (c, Some e)"
  by (simp add: performed_def)

lemma not_performed_mkdir [simp]: "\<not> performed (Mkdir p, r)"
  by (simp add: performed_def)

lemma linkFile_blocked:
  assumes "hasTitle md" and "calculateTargetPath md = (d, f)"
    and "d \<noteq> []" and "entryAt w (RootLevel d) = Some (FileEntry k)"
  shows "\<exists>w'. linkFile src md w = (None, w') \<and> quietly w w'"
proof -
  from calculateTargetPath_directory[OF assms(2), of w] assms(3)
  have "resolve w (outDir w @ js ''/'' @ d) = Some (RootLevel d)" by simp
  from mkdir_blocked[OF this assms(4)] obtain e where
    "mkdir (outDir w @ js ''/'' @ d) w
       = (Some e, w\<lparr>calls := calls w @ [(Mkdir (outDir w @ js ''/'' @ d), Some e)]\<rparr>)" by blast
  then have "linkFile src md w
       = (None, w\<lparr>calls := calls w @ [(Mkdir (outDir w @ js ''/'' @ d), Some e)]\<rparr>)"
    by (simp add: linkFile_unfold[OF assms(1,2)])
  with quietly_call[of "Mkdir (outDir w @ js ''/'' @ d)" "Some e" w] show ?thesis by simp
qed

lemma mkdir_noop:
  assumes "calculateTargetPath md = (d, f)"
    and "d = [] \<or> entryAt w (RootLevel d) = Some DirectoryEntry"
    and "regular w"
  shows "mkdir (outDir w @ js ''/'' @ d) w
     = (None, w\<lparr>calls := calls w @ [(Mkdir (outDir w @ js ''/'' @ d), None)]\<rparr>)"
proof (cases "d = []")
  case True
  from calculateTargetPath_directory[OF assms(1), of w] True
  have "resolve w (outDir w @ js ''/'' @ d) = Some TargetRoot" by simp
  from mkdir_root[OF this regular_call[OF assms(3)]] show ?thesis .
next
  case False
  from calculateTargetPath_directory[OF assms(1), of w] False
  have "resolve w (outDir w @ js ''/'' @ d) = Some (RootLevel d)" by simp
  from mkdir_existing[OF this _ regular_call[OF assms(3)]] assms(2) False show ?thesis by simp
qed

lemma entry_in_directory:
  assumes "entryAt w (targetLocation d f) = Some e"
  shows "d = [] \<or> entryAt w (RootLevel d) = Some DirectoryEntry"
  using assms
  by (auto simp: targetLocation_def split: if_splits option.splits targetRootEntry.splits)

text \<open>A file with two links or more at the target is kept.\<close>

lemma linkFile_kept:
  assumes "hasTitle md" and "calculateTargetPath md = (d, f)" and "regular w"
    and "entryAt w (targetLocation d f) = Some (FileEntry j)" and "nlinkOf w j \<noteq> 1"
  shows "\<exists>w'. linkFile src md w = (Some (d @ js ''/'' @ f), w') \<and> quietly w w'"
proof -
  let ?w1 = "w\<lparr>calls := calls w @ [(Mkdir (outDir w @ js ''/'' @ d), None)]\<rparr>"
  let ?tp = "outDir w @ js ''/'' @ d @ js ''/'' @ f"
  from mkdir_noop[OF assms(2) entry_in_directory[OF assms(4)] assms(3)]
  have mk: "mkdir (outDir w @ js ''/'' @ d) w = (None, ?w1)" .
  have res: "resolve ?w1 ?tp = Some (targetLocation d f)"
    using calculateTargetPath_resolve[OF assms(2), of w] by simp
  from assms(4) have "entryAt ?w1 (targetLocation d f) = Some (FileEntry j)" by simp
  from stat_file[OF res this] regular_call[OF assms(3)]
  have "stat ?tp ?w1 = Inr (nlinkOf w j)" by simp
  with mk assms(5) have "linkFile src md w = (Some (d @ js ''/'' @ f), ?w1)"
    by (auto simp: linkFile_unfold[OF assms(1,2)])
  with quietly_call[of "Mkdir (outDir w @ js ''/'' @ d)" None w] show ?thesis by simp
qed

text \<open>
  A directory at the target is left where it is: with a link count of one
  \<^verbatim>\<open>unlink\<close> is tried on it and fails.
\<close>

lemma linkFile_directory:
  assumes "hasTitle md" and "calculateTargetPath md = (d, f)" and "regular w"
    and "entryAt w (targetLocation d f) = Some DirectoryEntry"
  shows "\<exists>r w'. linkFile src md w = (r, w') \<and> quietly w w'
           \<and> (r = None \<or> r = Some (d @ js ''/'' @ f))"
proof -
  let ?mk = "(Mkdir (outDir w @ js ''/'' @ d), None)"
  let ?w1 = "w\<lparr>calls := calls w @ [?mk]\<rparr>"
  let ?tp = "outDir w @ js ''/'' @ d @ js ''/'' @ f"
  let ?n = "directoryLinkCount w (targetLocation d f)"
  from mkdir_noop[OF assms(2) entry_in_directory[OF assms(4)] assms(3)]
  have mk: "mkdir (outDir w @ js ''/'' @ d) w = (None, ?w1)" .
  have q1: "quietly w ?w1" by (rule quietly_call) simp
  have res: "resolve ?w1 ?tp = Some (targetLocation d f)"
    using calculateTargetPath_resolve[OF assms(2), of w] by simp
  from assms(4) have dir: "entryAt ?w1 (targetLocation d f) = Some DirectoryEntry" by simp
  from stat_directory[OF res dir] regular_call[OF assms(3)]
  have st: "stat ?tp ?w1 = Inr ?n" by simp
  show ?thesis
  proof (cases "?n \<noteq> 0 \<and> ?n < 2")
    case False
    with mk st have "linkFile src md w = (Some (d @ js ''/'' @ f), ?w1)"
      by (auto simp: linkFile_unfold[OF assms(1,2)])
    with q1 show ?thesis by blast
  next
    case True
    from dir have "\<forall>i. entryAt ?w1 (targetLocation d f) \<noteq> Some (FileEntry i)" by simp
    from unlink_no_file[OF res this] obtain e where
      u: "unlink ?tp ?w1 = (Some e, ?w1\<lparr>calls := calls ?w1 @ [(Unlink ?tp, Some e)]\<rparr>)" by blast
    let ?w2 = "?w1\<lparr>calls := calls ?w1 @ [(Unlink ?tp, Some e)]\<rparr>"
    from regular_safeRoot[OF assms(3)] have "safeRoot ?w1" by simp
    from safeUnlink_target[OF this, of d f] u have "safeUnlink ?tp ?w1 = (Inl e, ?w2)" by simp
    with mk st True have l: "linkFile src md w = (None, ?w2)"
      by (simp add: linkFile_unfold[OF assms(1,2)])
    have "quietly ?w1 ?w2" by (rule quietly_call) simp
    with q1 have "quietly w ?w2" by (rule quietly_trans)
    with l show ?thesis by blast
  qed
qed

text \<open>The directory of the target after \<^verbatim>\<open>mkdir\<close>, when no file is in its way.\<close>

lemma mkdir_directory:
  assumes "calculateTargetPath md = (d, f)"
    and "d = [] \<or> (\<forall>k. entryAt w (RootLevel d) \<noteq> Some (FileEntry k))"
    and "regular w"
  obtains w1 where "mkdir (outDir w @ js ''/'' @ d) w = (None, w1)" and "sameSetting w w1"
    and "d = [] \<or> entryAt w1 (RootLevel d) = Some DirectoryEntry"
    and "\<And>l'. l' \<noteq> RootLevel d \<Longrightarrow> entryAt w1 l' = entryAt w l'"
    and "\<And>l'. fileAt w1 l' = fileAt w l'"
    and "\<And>l'. entryAt w l' = Some DirectoryEntry \<Longrightarrow> entryAt w1 l' = Some DirectoryEntry"
    and "\<And>j. targetLinks w1 j = targetLinks w j"
    and "wellFormedTarget w \<Longrightarrow> wellFormedTarget w1"
proof (cases "d = [] \<or> entryAt w (RootLevel d) = Some DirectoryEntry")
  case True
  let ?w1 = "w\<lparr>calls := calls w @ [(Mkdir (outDir w @ js ''/'' @ d), None)]\<rparr>"
  from mkdir_noop[OF assms(1) True assms(3)]
  have 1: "mkdir (outDir w @ js ''/'' @ d) w = (None, ?w1)" .
  have 4: "d = [] \<or> entryAt ?w1 (RootLevel d) = Some DirectoryEntry" using True by simp
  show ?thesis by (rule that[OF 1 _ 4]) simp_all
next
  case False
  then have ne: "d \<noteq> []" and nd: "entryAt w (RootLevel d) \<noteq> Some DirectoryEntry" by auto
  with assms(2) have nf: "\<forall>k. entryAt w (RootLevel d) \<noteq> Some (FileEntry k)" by auto
  have none: "entryAt w (RootLevel d) = None"
  proof (cases "entryAt w (RootLevel d)")
    case None
    then show ?thesis .
  next
    case (Some e)
    with nd nf show ?thesis by (cases e) auto
  qed
  from calculateTargetPath_directory[OF assms(1), of w] ne
  have res: "resolve w (outDir w @ js ''/'' @ d) = Some (RootLevel d)" by simp
  show ?thesis
  proof (rule mkdir_new[OF res none regular_call[OF assms(3)]])
    fix w1
    assume 1: "mkdir (outDir w @ js ''/'' @ d) w = (None, w1)" and 2: "sameSetting w w1"
      and 4: "entryAt w1 (RootLevel d) = Some DirectoryEntry"
      and 5: "\<And>l'. l' \<noteq> RootLevel d \<Longrightarrow> entryAt w1 l' = entryAt w l'"
      and 6: "\<And>j. targetLinks w1 j = targetLinks w j"
      and 7: "wellFormedTarget w \<Longrightarrow> wellFormedTarget w1"
    have 8: "fileAt w1 l' = fileAt w l'" for l'
    proof (cases "l' = RootLevel d")
      case True
      with 4 none show ?thesis by (simp add: fileAt_def)
    next
      case False
      from 5[OF this] show ?thesis by (simp add: fileAt_def)
    qed
    have 9: "entryAt w1 l' = Some DirectoryEntry" if "entryAt w l' = Some DirectoryEntry" for l'
      using that 4 5[of l'] by (cases "l' = RootLevel d") auto
    from 4 have dir: "d = [] \<or> entryAt w1 (RootLevel d) = Some DirectoryEntry" by simp
    from that[OF 1 2 dir 5 8 9 6 7] show ?thesis .
  qed
qed

lemma link_premise:
  assumes "d = [] \<or> entryAt w (RootLevel d) = Some DirectoryEntry"
  shows "case targetLocation d f of TargetRoot \<Rightarrow> False | RootLevel x \<Rightarrow> True
         | InDirectory d' f' \<Rightarrow> entryAt w (RootLevel d') = Some DirectoryEntry"
  using assms by (auto simp: targetLocation_def)

lemma fileAt_from_entryAt:
  "entryAt w' l = entryAt w l \<Longrightarrow> fileAt w' l = fileAt w l"
  by (simp add: fileAt_def)

lemma linkFile_create:
  assumes "hasTitle md" and "calculateTargetPath md = (d, f)"
    and "d = [] \<or> (\<forall>k. entryAt w (RootLevel d) \<noteq> Some (FileEntry k))"
    and "entryAt w (targetLocation d f) = None"
    and "map_of (sourceInodes w) src = Some i"
    and "regular w"
  obtains w' where "linkFile src md w = (Some (d @ js ''/'' @ f), w')" and "sameSetting w w'"
    and "entryAt w' (targetLocation d f) = Some (FileEntry i)"
    and "\<And>l'. l' \<noteq> targetLocation d f \<Longrightarrow> fileAt w' l' = fileAt w l'"
    and "\<And>l'. entryAt w l' = Some DirectoryEntry \<Longrightarrow> entryAt w' l' = Some DirectoryEntry"
    and "\<And>j. j \<noteq> i \<Longrightarrow> targetLinks w' j = targetLinks w j"
    and "wellFormedTarget w \<Longrightarrow> wellFormedTarget w'"
    and "\<And>l'. l' \<noteq> targetLocation d f \<Longrightarrow> l' \<noteq> RootLevel d \<Longrightarrow> entryAt w' l' = entryAt w l'"
    and "\<And>j. targetLinks w j \<le> targetLinks w' j"
proof -
  let ?tl = "targetLocation d f"
  let ?tp = "outDir w @ js ''/'' @ d @ js ''/'' @ f"
  from mkdir_directory[OF assms(2,3,6)] obtain w1 where
    mk: "mkdir (outDir w @ js ''/'' @ d) w = (None, w1)" and s1: "sameSetting w w1"
    and d1: "d = [] \<or> entryAt w1 (RootLevel d) = Some DirectoryEntry"
    and e1: "\<And>l'. l' \<noteq> RootLevel d \<Longrightarrow> entryAt w1 l' = entryAt w l'"
    and f1: "\<And>l'. fileAt w1 l' = fileAt w l'"
    and k1: "\<And>l'. entryAt w l' = Some DirectoryEntry \<Longrightarrow> entryAt w1 l' = Some DirectoryEntry"
    and t1: "\<And>j. targetLinks w1 j = targetLinks w j"
    and wf1: "wellFormedTarget w \<Longrightarrow> wellFormedTarget w1" by blast
  have res: "resolve w1 ?tp = Some ?tl"
    using calculateTargetPath_resolve[OF assms(2), of w] sameSetting_resolve[OF s1] by simp
  have none: "entryAt w1 ?tl = None"
    using e1[OF targetLocation_not_directory[OF assms(2)]] assms(4) by simp
  from stat_missing[OF res none] obtain e where st: "stat ?tp w1 = Inl e" by blast
  have src: "map_of (sourceInodes w1) src = Some i"
    using assms(5) sameSetting_sourceInodes[OF s1] by simp
  from sameSetting_regular[OF s1] assms(6) have reg1: "regular w1" by simp
  show ?thesis
  proof (rule link_new[OF res none src link_premise[OF d1] regular_call[OF reg1]])
  fix w'
  assume lk: "link src ?tp w1 = (None, w')" and s2: "sameSetting w1 w'"
    and e2: "entryAt w' ?tl = Some (FileEntry i)"
    and o2: "\<And>l'. l' \<noteq> ?tl \<Longrightarrow> entryAt w' l' = entryAt w1 l'"
    and t2: "\<And>j. j \<noteq> i \<Longrightarrow> targetLinks w' j = targetLinks w1 j"
    and wf2: "wellFormedTarget w1 \<Longrightarrow> wellFormedTarget w'"
    and g2: "\<And>j. targetLinks w1 j \<le> targetLinks w' j"
  have 1: "linkFile src md w = (Some (d @ js ''/'' @ f), w')"
    using mk st lk by (simp add: linkFile_unfold[OF assms(1,2)] createLink_def)
  have 2: "sameSetting w w'" using s1 s2 by (rule sameSetting_trans)
  have 5: "fileAt w' l' = fileAt w l'" if "l' \<noteq> ?tl" for l'
    using fileAt_from_entryAt[OF o2[OF that]] f1[of l'] by simp
  have 6: "entryAt w' l' = Some DirectoryEntry" if "entryAt w l' = Some DirectoryEntry" for l'
  proof -
    from k1[OF that] have k: "entryAt w1 l' = Some DirectoryEntry" .
    with none have "l' \<noteq> ?tl" by auto
    from o2[OF this] k show ?thesis by simp
  qed
  have 7: "targetLinks w' j = targetLinks w j" if "j \<noteq> i" for j
    using t2[OF that] t1[of j] by simp
  have 8: "wellFormedTarget w'" if "wellFormedTarget w"
    using wf2[OF wf1[OF that]] .
  have 9: "entryAt w' l' = entryAt w l'" if "l' \<noteq> ?tl" and "l' \<noteq> RootLevel d" for l'
    using o2[OF that(1)] e1[OF that(2)] by simp
  have 10: "targetLinks w j \<le> targetLinks w' j" for j
    using g2[of j] t1[of j] by simp
  from that[OF 1 2 e2 5 6 7 8 9 10] show ?thesis .
  qed
qed

lemma linkFile_replace:
  assumes "hasTitle md" and "calculateTargetPath md = (d, f)"
    and "entryAt w (targetLocation d f) = Some (FileEntry j)" and "nlinkOf w j = 1"
    and "regular w" and "map_of (sourceInodes w) src = Some i"
  obtains w' where "linkFile src md w = (Some (d @ js ''/'' @ f), w')" and "sameSetting w w'"
    and "entryAt w' (targetLocation d f) = Some (FileEntry i)"
    and "\<And>l'. l' \<noteq> targetLocation d f \<Longrightarrow> entryAt w' l' = entryAt w l'"
    and "\<And>k. k \<noteq> i \<Longrightarrow> targetLinks w' k \<le> targetLinks w k"
    and "wellFormedTarget w \<Longrightarrow> wellFormedTarget w'"
    and "\<And>k. wellFormedTarget w \<Longrightarrow> k \<noteq> j \<Longrightarrow> targetLinks w k \<le> targetLinks w' k"
proof -
  let ?tl = "targetLocation d f"
  let ?dp = "outDir w @ js ''/'' @ d"
  let ?tp = "outDir w @ js ''/'' @ d @ js ''/'' @ f"
  let ?w1 = "w\<lparr>calls := calls w @ [(Mkdir ?dp, None)]\<rparr>"
  have dir: "d = [] \<or> entryAt w (RootLevel d) = Some DirectoryEntry"
    using entry_in_directory[OF assms(3)] .
  from mkdir_noop[OF assms(2) dir assms(5)] have mk: "mkdir ?dp w = (None, ?w1)" .
  from assms(5) have reg1: "regular ?w1" by simp
  have res: "resolve ?w1 ?tp = Some ?tl"
    using calculateTargetPath_resolve[OF assms(2), of w] by simp
  have ent: "entryAt ?w1 ?tl = Some (FileEntry j)" using assms(3) by simp
  from stat_file[OF res ent regular_call[OF reg1]] assms(4) have st: "stat ?tp ?w1 = Inr 1"
    by simp
  show ?thesis
  proof (rule unlink_file[OF res ent regular_call[OF reg1]])
  fix w2
  assume ul: "unlink ?tp ?w1 = (None, w2)" and s2: "sameSetting ?w1 w2"
    and e2: "entryAt w2 ?tl = None"
    and o2: "\<And>l'. l' \<noteq> ?tl \<Longrightarrow> entryAt w2 l' = entryAt ?w1 l'"
    and t2: "\<And>k. targetLinks w2 k \<le> targetLinks ?w1 k"
    and wf2: "wellFormedTarget ?w1 \<Longrightarrow> wellFormedTarget w2"
    and g2: "\<And>k. wellFormedTarget ?w1 \<Longrightarrow> k \<noteq> j \<Longrightarrow> targetLinks w2 k = targetLinks ?w1 k"
  have su: "safeUnlink ?tp ?w1 = (Inr True, w2)"
    using safeUnlink_target[of ?w1 d f] regular_safeRoot[OF assms(5)] ul by simp
  from sameSetting_regular[OF s2] reg1 have reg2: "regular w2" by simp
  have res2: "resolve w2 ?tp = Some ?tl" using res sameSetting_resolve[OF s2] by simp
  have src2: "map_of (sourceInodes w2) src = Some i"
    using assms(6) sameSetting_sourceInodes[OF s2] by simp
  have dir2: "d = [] \<or> entryAt w2 (RootLevel d) = Some DirectoryEntry"
    using dir o2[of "RootLevel d"] targetLocation_not_directory[OF assms(2)] by auto
  show ?thesis
  proof (rule link_new[OF res2 e2 src2 link_premise[OF dir2] regular_call[OF reg2]])
  fix w'
  assume lk: "link src ?tp w2 = (None, w')" and s3: "sameSetting w2 w'"
    and e3: "entryAt w' ?tl = Some (FileEntry i)"
    and o3: "\<And>l'. l' \<noteq> ?tl \<Longrightarrow> entryAt w' l' = entryAt w2 l'"
    and t3: "\<And>k. k \<noteq> i \<Longrightarrow> targetLinks w' k = targetLinks w2 k"
    and wf3: "wellFormedTarget w2 \<Longrightarrow> wellFormedTarget w'"
    and g3: "\<And>k. targetLinks w2 k \<le> targetLinks w' k"
  have 1: "linkFile src md w = (Some (d @ js ''/'' @ f), w')"
    using mk st su lk by (simp add: linkFile_unfold[OF assms(1,2)] createLink_def)
  have 2: "sameSetting w w'"
    using sameSetting_trans[OF sameSetting_trans[OF sameSetting_calls s2] s3] .
  have 5: "entryAt w' l' = entryAt w l'" if "l' \<noteq> ?tl" for l'
    using o3[OF that] o2[OF that] by simp
  have 6: "targetLinks w' k \<le> targetLinks w k" if "k \<noteq> i" for k
    using t3[OF that] t2[of k] by simp
  have 7: "wellFormedTarget w'" if "wellFormedTarget w"
    using wf3[OF wf2] that by simp
  have 8: "targetLinks w k \<le> targetLinks w' k" if "wellFormedTarget w" and "k \<noteq> j" for k
    using g3[of k] g2[of k] that by simp
  from that[OF 1 2 e3 5 6 7 8] show ?thesis .
  qed
  qed
qed

lemma fileAt_Some: "fileAt w l = Some i \<longleftrightarrow> entryAt w l = Some (FileEntry i)"
  by (auto simp: fileAt_def split: option.splits entryKind.splits)

lemma fileAt_None_entry: "entryAt w l = None \<Longrightarrow> fileAt w l = None"
  by (simp add: fileAt_def)

lemma fileAt_directory: "entryAt w l = Some DirectoryEntry \<Longrightarrow> fileAt w l = None"
  by (simp add: fileAt_def)

lemma blocked_iff: "blocked w d \<longleftrightarrow> d \<noteq> [] \<and> (\<exists>k. entryAt w (RootLevel d) = Some (FileEntry k))"
  by (auto simp: blocked_def split: option.splits entryKind.splits)

lemma blocked_fileAt: "blocked w d \<longleftrightarrow> d \<noteq> [] \<and> fileAt w (RootLevel d) \<noteq> None"
  by (auto simp: blocked_iff fileAt_Some)

lemma settled_iff:
  "settled w l \<longleftrightarrow> (\<exists>k. entryAt w l = Some (FileEntry k) \<and> 1 \<le> outsideLinks w k)"
  by (auto simp: settled_def split: option.splits entryKind.splits)

lemma settled_present:
  assumes "settled w l"
  shows "\<exists>j. entryAt w l = Some (FileEntry j) \<and> nlinkOf w j \<noteq> 1"
proof -
  from assms obtain k where k: "entryAt w l = Some (FileEntry k)" "1 \<le> outsideLinks w k"
    by (auto simp: settled_iff)
  from targetLinks_present[OF k(1)] k(2) have "nlinkOf w k \<noteq> 1"
    by (simp add: nlinkOf_outside)
  with k(1) show ?thesis by blast
qed

lemma source_outsideLinks:
  assumes "map_of (sourceInodes w) src = Some i"
  shows "1 \<le> outsideLinks w i"
proof -
  from assms have "(src, i) \<in> set (sourceInodes w)" by (rule map_of_SomeD)
  then have "filter (\<lambda>(path, j). j = i) (sourceInodes w) \<noteq> []"
    by (auto simp: filter_empty_conv)
  then show ?thesis by (simp add: outsideLinks_def sourceLinks_def Suc_le_eq)
qed

lemma changesOnly_same_tree:
  assumes "targetTree w' = targetTree w" and "sameSetting w w'"
  shows "changesOnly w w' l i"
  using assms entryAt_same_tree[OF assms(1)] fileAt_same_tree[OF assms(1)]
    targetLinks_same_tree[OF assms(1)] wellFormedTarget_same_tree[OF assms(1)]
  by (simp add: changesOnly_def)

lemma changesOnly_quietly: "quietly w w' \<Longrightarrow> changesOnly w w' l i"
  using changesOnly_same_tree[OF quietly_tree quietly_sameSetting] by simp

lemma changesOnly_refl: "changesOnly w w l i"
  by (rule changesOnly_same_tree) (simp_all add: sameSetting_refl)

text \<open>The four ways a call of \<^verbatim>\<open>linkFile\<close> with a title goes.\<close>

lemma linkFile_cases:
  assumes "regular w" and "hasTitle md" and "calculateTargetPath md = (d, f)"
    and "map_of (sourceInodes w) src = Some i"
  obtains
    (stopped) w' where "blocked w d"
      "linkFile src md w = (None, w')" "quietly w w'"
  | (kept) w' j where "\<not> blocked w d"
      "entryAt w (targetLocation d f) = Some (FileEntry j)" "nlinkOf w j \<noteq> 1"
      "linkFile src md w = (Some (d @ js ''/'' @ f), w')" "quietly w w'"
  | (directory) r w' where "\<not> blocked w d"
      "entryAt w (targetLocation d f) = Some DirectoryEntry"
      "linkFile src md w = (r, w')" "quietly w w'" "r = None \<or> r = Some (d @ js ''/'' @ f)"
  | (linked) w' where "\<not> blocked w d"
      "entryAt w (targetLocation d f) = None
       \<or> (\<exists>j. entryAt w (targetLocation d f) = Some (FileEntry j) \<and> nlinkOf w j = 1)"
      "linkFile src md w = (Some (d @ js ''/'' @ f), w')"
      "fileAt w' (targetLocation d f) = Some i"
      "changesOnly w w' (targetLocation d f) (Some i)"
      "\<And>k. wellFormedTarget w \<Longrightarrow> 2 \<le> nlinkOf w k \<Longrightarrow> 2 \<le> nlinkOf w' k"
proof (cases "blocked w d")
  case True
  then obtain k where k: "d \<noteq> []" "entryAt w (RootLevel d) = Some (FileEntry k)"
    by (auto simp: blocked_iff)
  from linkFile_blocked[OF assms(2,3) k, of src] obtain w' where
    "linkFile src md w = (None, w')" and "quietly w w'" by blast
  from stopped[OF True this] show ?thesis .
next
  case False
  then have free: "d = [] \<or> (\<forall>k. entryAt w (RootLevel d) \<noteq> Some (FileEntry k))"
    by (auto simp: blocked_iff)
  show ?thesis
  proof (cases "entryAt w (targetLocation d f)")
    case None
    then have q: "entryAt w (targetLocation d f) = None
       \<or> (\<exists>j. entryAt w (targetLocation d f) = Some (FileEntry j) \<and> nlinkOf w j = 1)" by blast
    show ?thesis
    proof (rule linkFile_create[OF assms(2,3) free None assms(4,1)])
      fix w'
      assume c1: "linkFile src md w = (Some (d @ js ''/'' @ f), w')" and c2: "sameSetting w w'"
        and c3: "entryAt w' (targetLocation d f) = Some (FileEntry i)"
        and c4: "\<And>l'. l' \<noteq> targetLocation d f \<Longrightarrow> fileAt w' l' = fileAt w l'"
        and c5: "\<And>l'. entryAt w l' = Some DirectoryEntry \<Longrightarrow> entryAt w' l' = Some DirectoryEntry"
        and c6: "\<And>j. j \<noteq> i \<Longrightarrow> targetLinks w' j = targetLinks w j"
        and c7: "wellFormedTarget w \<Longrightarrow> wellFormedTarget w'"
        and c8: "\<And>l'. l' \<noteq> targetLocation d f \<Longrightarrow> l' \<noteq> RootLevel d \<Longrightarrow> entryAt w' l' = entryAt w l'"
        and c9: "\<And>j. targetLinks w j \<le> targetLinks w' j"
      from c3 have fl: "fileAt w' (targetLocation d f) = Some i" by (simp add: fileAt_Some)
      have lk: "\<forall>k. Some k \<noteq> Some i \<longrightarrow> targetLinks w' k \<le> targetLinks w k"
        using c6 by simp
      have "46 \<notin> set d" using calculateTargetPath_names[OF assms(3)] by simp
      with c8 have en: "\<forall>l'. l' \<noteq> targetLocation d f \<longrightarrow>
          entryAt w' l' = entryAt w l' \<or> (\<exists>d. l' = RootLevel d \<and> 46 \<notin> set d)"
        by blast
      from c2 c4 c5 c7 fl lk en have ch: "changesOnly w w' (targetLocation d f) (Some i)"
        unfolding changesOnly_def by blast
      have up: "2 \<le> nlinkOf w' k" if "wellFormedTarget w" and "2 \<le> nlinkOf w k" for k
        using c9[of k] that(2) sameSetting_outsideLinks[OF c2, of k]
        by (simp add: nlinkOf_outside)
      from linked[OF False q c1 fl ch up] show ?thesis .
    qed
  next
    case (Some e)
    show ?thesis
    proof (cases e)
      case DirectoryEntry
      with Some have dir: "entryAt w (targetLocation d f) = Some DirectoryEntry" by simp
      from linkFile_directory[OF assms(2,3,1) dir, of src] obtain r w' where
        "linkFile src md w = (r, w')" and "quietly w w'"
        and "r = None \<or> r = Some (d @ js ''/'' @ f)" by blast
      from directory[OF False dir this] show ?thesis .
    next
      case (FileEntry j)
      with Some have ent: "entryAt w (targetLocation d f) = Some (FileEntry j)" by simp
      show ?thesis
      proof (cases "nlinkOf w j = 1")
        case no: False
        from linkFile_kept[OF assms(2,3,1) ent no, of src] obtain w' where
          "linkFile src md w = (Some (d @ js ''/'' @ f), w')" and "quietly w w'" by blast
        from kept[OF False ent no this] show ?thesis .
      next
        case n: True
        from ent n have q: "entryAt w (targetLocation d f) = None
         \<or> (\<exists>j. entryAt w (targetLocation d f) = Some (FileEntry j) \<and> nlinkOf w j = 1)" by blast
        show ?thesis
        proof (rule linkFile_replace[OF assms(2,3) ent n assms(1,4)])
          fix w'
          assume c1: "linkFile src md w = (Some (d @ js ''/'' @ f), w')" and c2: "sameSetting w w'"
            and c3: "entryAt w' (targetLocation d f) = Some (FileEntry i)"
            and c4: "\<And>l'. l' \<noteq> targetLocation d f \<Longrightarrow> entryAt w' l' = entryAt w l'"
            and c5: "\<And>k. k \<noteq> i \<Longrightarrow> targetLinks w' k \<le> targetLinks w k"
            and c6: "wellFormedTarget w \<Longrightarrow> wellFormedTarget w'"
            and c7: "\<And>k. wellFormedTarget w \<Longrightarrow> k \<noteq> j \<Longrightarrow> targetLinks w k \<le> targetLinks w' k"
          from c3 have fl: "fileAt w' (targetLocation d f) = Some i" by (simp add: fileAt_Some)
          have f: "\<forall>l'. l' \<noteq> targetLocation d f \<longrightarrow> fileAt w' l' = fileAt w l'"
            using c4 by (simp add: fileAt_def)
          have k: "\<forall>l'. entryAt w l' = Some DirectoryEntry \<longrightarrow> entryAt w' l' = Some DirectoryEntry"
          proof (intro allI impI)
            fix l' assume dir: "entryAt w l' = Some DirectoryEntry"
            with ent have "l' \<noteq> targetLocation d f" by auto
            from c4[OF this] dir show "entryAt w' l' = Some DirectoryEntry" by simp
          qed
          have lk: "\<forall>k. Some k \<noteq> Some i \<longrightarrow> targetLinks w' k \<le> targetLinks w k"
            using c5 by simp
          from c4 have en: "\<forall>l'. l' \<noteq> targetLocation d f \<longrightarrow>
              entryAt w' l' = entryAt w l' \<or> (\<exists>d. l' = RootLevel d \<and> 46 \<notin> set d)"
            by blast
          from c2 f k c6 fl lk en have ch: "changesOnly w w' (targetLocation d f) (Some i)"
            unfolding changesOnly_def by blast
          have up: "2 \<le> nlinkOf w' k" if wf: "wellFormedTarget w" and two: "2 \<le> nlinkOf w k" for k
          proof -
            from two n have "k \<noteq> j" by auto
            from c7[OF wf this] two sameSetting_outsideLinks[OF c2, of k] show ?thesis
              by (simp add: nlinkOf_outside)
          qed
          from linked[OF False q c1 fl ch up] show ?thesis .
        qed
      qed
    qed
  qed
qed

lemma changesOnly_sameSetting: "changesOnly w w' l i \<Longrightarrow> sameSetting w w'"
  by (simp add: changesOnly_def)

lemma changesOnly_fileAt: "changesOnly w w' l i \<Longrightarrow> l0 \<noteq> l \<Longrightarrow> fileAt w' l0 = fileAt w l0"
  by (simp add: changesOnly_def)

lemma changesOnly_directory:
  "changesOnly w w' l i \<Longrightarrow> entryAt w l0 = Some DirectoryEntry \<Longrightarrow> entryAt w' l0 = Some DirectoryEntry"
  by (simp add: changesOnly_def)

lemma changesOnly_wellFormed: "changesOnly w w' l i \<Longrightarrow> wellFormedTarget w \<Longrightarrow> wellFormedTarget w'"
  by (simp add: changesOnly_def)

lemma changesOnly_at: "changesOnly w w' l i \<Longrightarrow> fileAt w' l = fileAt w l \<or> fileAt w' l = i"
  by (simp add: changesOnly_def)

lemma changesOnly_entryAt:
  assumes "changesOnly w w' l i" and "l0 \<noteq> l" and "\<forall>d. l0 = RootLevel d \<longrightarrow> 46 \<in> set d"
  shows "entryAt w' l0 = entryAt w l0"
proof -
  from assms(1) have "\<forall>l'. l' \<noteq> l \<longrightarrow>
      entryAt w' l' = entryAt w l' \<or> (\<exists>d. l' = RootLevel d \<and> 46 \<notin> set d)"
    by (simp add: changesOnly_def)
  with assms(2) have "entryAt w' l0 = entryAt w l0 \<or> (\<exists>d. l0 = RootLevel d \<and> 46 \<notin> set d)"
    by simp
  with assms(3) show ?thesis by auto
qed

lemma changesOnly_links:
  "changesOnly w w' l i \<Longrightarrow> Some k \<noteq> i \<Longrightarrow> targetLinks w' k \<le> targetLinks w k"
  by (simp add: changesOnly_def)

lemma changesOnly_entry:
  assumes "changesOnly w w' l i" and "l0 \<noteq> l" and "entryAt w l0 = Some e"
  shows "entryAt w' l0 = Some e"
proof (cases e)
  case (FileEntry k)
  with assms(3) have "fileAt w l0 = Some k" by (simp add: fileAt_Some)
  with changesOnly_fileAt[OF assms(1,2)] FileEntry show ?thesis by (simp add: fileAt_Some)
next
  case DirectoryEntry
  with changesOnly_directory[OF assms(1)] assms(3) show ?thesis by simp
qed

lemma changesOnly_settled:
  assumes "changesOnly w w' l i" and "l0 \<noteq> l" and "settled w l0"
  shows "settled w' l0 \<and> entryAt w' l0 = entryAt w l0"
proof -
  from assms(3) obtain e where e: "entryAt w l0 = Some e"
    by (auto simp: settled_def split: option.splits)
  from changesOnly_entry[OF assms(1,2) e] have same: "entryAt w' l0 = Some e" .
  with e assms(3) sameSetting_outsideLinks[OF changesOnly_sameSetting[OF assms(1)]]
  show ?thesis by (auto simp: settled_def split: entryKind.splits)
qed

lemma changesOnly_blocked:
  assumes "changesOnly w w' l i" and "l \<noteq> RootLevel d"
  shows "blocked w' d = blocked w d"
  using changesOnly_fileAt[OF assms(1), of "RootLevel d"] assms(2)
  by (simp add: blocked_fileAt)

lemma changesOnly_outsideInvariant:
  assumes "changesOnly w w' l i" and "outsideInvariant w"
    and "\<forall>k. i = Some k \<longrightarrow> 1 \<le> outsideLinks w k"
  shows "outsideInvariant w'"
  unfolding outsideInvariant_def
proof (intro allI impI)
  fix l' k
  assume ent: "entryAt w' l' = Some (FileEntry k)" and n: "2 \<le> nlinkOf w' k"
  have out: "outsideLinks w' k = outsideLinks w k"
    using sameSetting_outsideLinks[OF changesOnly_sameSetting[OF assms(1)]] .
  show "1 \<le> outsideLinks w' k"
  proof (cases "Some k = i")
    case True
    with assms(3) out show ?thesis by auto
  next
    case False
    from ent have f': "fileAt w' l' = Some k" by (simp add: fileAt_Some)
    have "fileAt w l' = Some k"
    proof (cases "l' = l")
      case True
      with changesOnly_at[OF assms(1)] f' False show ?thesis by auto
    next
      case ne: False
      from changesOnly_fileAt[OF assms(1) ne] f' show ?thesis by simp
    qed
    then have old: "entryAt w l' = Some (FileEntry k)" by (simp add: fileAt_Some)
    from changesOnly_links[OF assms(1) False] n out have "2 \<le> nlinkOf w k"
      by (simp add: nlinkOf_outside)
    with assms(2) old out show ?thesis by (auto simp: outsideInvariant_def)
  qed
qed

subsection \<open>One call of \<^verbatim>\<open>linkFile\<close>\<close>

lemma outsideLinks_calls [simp]: "outsideLinks (w\<lparr>calls := c\<rparr>) i = outsideLinks w i"
  by (simp add: outsideLinks_def sourceLinks_def)

lemma settled_calls [simp]: "settled (w\<lparr>calls := c\<rparr>) l = settled w l"
  by (auto simp: settled_def split: option.splits entryKind.splits)

lemma blocked_calls [simp]: "blocked (w\<lparr>calls := c\<rparr>) d = blocked w d"
  by (simp add: blocked_def)

lemma settled_quietly: "quietly w w' \<Longrightarrow> settled w' l = settled w l"
  by (auto simp: quietly_def)

lemma blocked_quietly: "quietly w w' \<Longrightarrow> blocked w' d = blocked w d"
  by (auto simp: quietly_def)

lemma outsideInvariant_calls [simp]: "outsideInvariant (w\<lparr>calls := c\<rparr>) = outsideInvariant w"
  by (simp add: outsideInvariant_def)

lemma outsideInvariant_quietly: "quietly w w' \<Longrightarrow> outsideInvariant w' = outsideInvariant w"
  by (auto simp: quietly_def)

lemma locationOf_eq: "calculateTargetPath md = (d, f) \<Longrightarrow> locationOf md = targetLocation d f"
  by (simp add: locationOf_def)

lemma relativePathOf_eq: "calculateTargetPath md = (d, f) \<Longrightarrow> relativePathOf md = d @ js ''/'' @ f"
  by (simp add: relativePathOf_def)

lemma linkFile_changesOnly:
  assumes "regular w" and "validSource w src" and "linkFile src md w = (r, w')"
  shows "changesOnly w w' (locationOf md) (map_of (sourceInodes w) src)"
proof (cases "hasTitle md")
  case False
  with assms(3) show ?thesis by (simp add: linkFile_no_title changesOnly_refl)
next
  case True
  obtain d f where p: "calculateTargetPath md = (d, f)" by (cases "calculateTargetPath md")
  from assms(2) obtain i where i: "map_of (sourceInodes w) src = Some i"
    by (auto simp: validSource_def)
  from assms(1) True p i show ?thesis
  proof (cases rule: linkFile_cases)
    case (stopped w2)
    with assms(3) show ?thesis by (auto simp: changesOnly_quietly)
  next
    case (kept w2 j)
    with assms(3) show ?thesis by (auto simp: changesOnly_quietly)
  next
    case (directory r2 w2)
    with assms(3) show ?thesis by (auto simp: changesOnly_quietly)
  next
    case (linked w2)
    with assms(3) i p show ?thesis by (simp add: locationOf_eq)
  qed
qed

lemma linkFile_result:
  assumes "regular w" and "validSource w src" and "linkFile src md w = (r, w')"
  shows "r = None \<or> (hasTitle md \<and> r = Some (relativePathOf md))"
proof (cases "hasTitle md")
  case False
  with assms(3) show ?thesis by (simp add: linkFile_no_title)
next
  case True
  obtain d f where p: "calculateTargetPath md = (d, f)" by (cases "calculateTargetPath md")
  from assms(2) obtain i where i: "map_of (sourceInodes w) src = Some i"
    by (auto simp: validSource_def)
  from assms(1) True p i show ?thesis
  proof (cases rule: linkFile_cases)
    case (stopped w2)
    with assms(3) show ?thesis by simp
  next
    case (kept w2 j)
    with assms(3) True p show ?thesis by (simp add: relativePathOf_eq)
  next
    case (directory r2 w2)
    with assms(3) True p show ?thesis by (auto simp: relativePathOf_eq)
  next
    case (linked w2)
    with assms(3) True p show ?thesis by (simp add: relativePathOf_eq)
  qed
qed

lemma linkFile_blocked_quiet:
  assumes "hasTitle md" and "blocked w (fst (calculateTargetPath md))"
  shows "\<exists>w'. linkFile src md w = (None, w') \<and> quietly w w'"
proof -
  obtain d f where p: "calculateTargetPath md = (d, f)" by (cases "calculateTargetPath md")
  with assms(2) obtain k where "d \<noteq> []" "entryAt w (RootLevel d) = Some (FileEntry k)"
    by (auto simp: blocked_iff)
  from linkFile_blocked[OF assms(1) p this] show ?thesis .
qed

lemma linkFile_settled_quiet:
  assumes "regular w" and "hasTitle md" and "settled w (locationOf md)"
  shows "\<exists>w'. linkFile src md w = (Some (relativePathOf md), w') \<and> quietly w w'"
proof -
  obtain d f where p: "calculateTargetPath md = (d, f)" by (cases "calculateTargetPath md")
  from settled_present[OF assms(3)] p obtain j where
    "entryAt w (targetLocation d f) = Some (FileEntry j)" and "nlinkOf w j \<noteq> 1"
    by (auto simp: locationOf_eq)
  from linkFile_kept[OF assms(2) p assms(1) this] p show ?thesis by (simp add: relativePathOf_eq)
qed

lemma linkFile_directory_quiet:
  assumes "regular w" and "hasTitle md" and "entryAt w (locationOf md) = Some DirectoryEntry"
  shows "\<exists>r w'. linkFile src md w = (r, w') \<and> quietly w w'"
proof -
  obtain d f where p: "calculateTargetPath md = (d, f)" by (cases "calculateTargetPath md")
  with assms(3) have "entryAt w (targetLocation d f) = Some DirectoryEntry"
    by (simp add: locationOf_eq)
  from linkFile_directory[OF assms(2) p assms(1) this, of src] show ?thesis by blast
qed

text \<open>
  After a call with a title whose directory is not blocked, the target is a file with a
  link from outside, or a directory.
\<close>

lemma linkFile_settles:
  assumes "regular w" and "validSource w src" and "linkFile src md w = (r, w')"
    and "hasTitle md" and "\<not> blocked w (fst (calculateTargetPath md))" and "outsideInvariant w"
  shows "(r = Some (relativePathOf md) \<and> settled w' (locationOf md))
     \<or> entryAt w' (locationOf md) = Some DirectoryEntry"
proof -
  obtain d f where p: "calculateTargetPath md = (d, f)" by (cases "calculateTargetPath md")
  from assms(2) obtain i where i: "map_of (sourceInodes w) src = Some i"
    by (auto simp: validSource_def)
  from assms(1,4) p i show ?thesis
  proof (cases rule: linkFile_cases)
    case (stopped w2)
    with assms(5) p show ?thesis by simp
  next
    case (kept w2 j)
    from targetLinks_present[OF kept(2)] kept(3) have "2 \<le> nlinkOf w j"
      by (simp add: nlinkOf_outside)
    with assms(6) kept(2) have "1 \<le> outsideLinks w j" by (auto simp: outsideInvariant_def)
    with kept(2) have "settled w (targetLocation d f)" by (simp add: settled_def)
    with settled_quietly[OF kept(5)] have "settled w2 (targetLocation d f)" by simp
    with kept(4) assms(3) p show ?thesis
      by (auto simp: relativePathOf_eq locationOf_eq)
  next
    case (directory r2 w2)
    from quietly_entryAt[OF directory(4), of "targetLocation d f"] directory(2)
    have "entryAt w2 (targetLocation d f) = Some DirectoryEntry" by simp
    with directory(3) assms(3) p show ?thesis by (simp add: locationOf_eq)
  next
    case (linked w2)
    from linked(3) assms(3) have w2: "w2 = w'" and r: "r = Some (d @ js ''/'' @ f)" by simp_all
    from linked(4) w2 have "entryAt w' (targetLocation d f) = Some (FileEntry i)"
      by (simp add: fileAt_Some)
    moreover have "1 \<le> outsideLinks w' i"
      using source_outsideLinks[OF i]
        sameSetting_outsideLinks[OF changesOnly_sameSetting[OF linked(5)]] w2 by simp
    ultimately have "settled w' (targetLocation d f)" by (simp add: settled_def)
    with r p show ?thesis by (simp add: relativePathOf_eq locationOf_eq)
  qed
qed

lemma linkFile_present_stays:
  assumes "regular w" and "validSource w src" and "linkFile src md w = (r, w')"
    and "hasTitle md" and "fileAt w (locationOf md) \<noteq> None"
  shows "r = Some (relativePathOf md) \<and> fileAt w' (locationOf md) \<noteq> None"
proof -
  obtain d f where p: "calculateTargetPath md = (d, f)" by (cases "calculateTargetPath md")
  from assms(2) obtain i where i: "map_of (sourceInodes w) src = Some i"
    by (auto simp: validSource_def)
  from assms(5) p obtain j where j: "entryAt w (targetLocation d f) = Some (FileEntry j)"
    by (auto simp: locationOf_eq fileAt_Some)
  from assms(1,4) p i show ?thesis
  proof (cases rule: linkFile_cases)
    case (stopped w2)
    from entry_in_directory[OF j] stopped(1) show ?thesis by (auto simp: blocked_iff)
  next
    case (kept w2 k)
    from quietly_fileAt[OF kept(5), of "locationOf md"] kept(4) assms(3,5) p
    show ?thesis by (auto simp: relativePathOf_eq)
  next
    case (directory r2 w2)
    with j show ?thesis by simp
  next
    case (linked w2)
    with assms(3) p show ?thesis by (auto simp: relativePathOf_eq locationOf_eq)
  qed
qed





subsection \<open>Relative paths\<close>

lemma validRelative_iff:
  "validRelative u \<longleftrightarrow> (\<exists>d f. u = d @ js ''/'' @ f \<and> validName d \<and> validName f)"
proof
  assume v: "validRelative u"
  then obtain d f where s: "split 47 u = [d, f]" and n: "validName d" "validName f"
    by (auto simp: validRelative_def split: list.splits)
  have "u = d @ js ''/'' @ f"
    using s
  proof (induction u arbitrary: d)
    case Nil
    then show ?case by simp
  next
    case (Cons c u)
    show ?case
    proof (cases "c = 47")
      case True
      with Cons.prems have "d = []" and s': "split 47 u = [f]" by auto
      have "47 \<notin> set f" using n(2) by (simp add: validName_def)
      have "u = f"
      proof (rule ccontr)
        assume "u \<noteq> f"
        show False
        proof (cases "47 \<in> set u")
          case False
          with s' \<open>u \<noteq> f\<close> show False by (simp add: split_no_separator)
        next
          case True
          then obtain a b where ab: "u = a @ 47 # b" and "47 \<notin> set a"
            by (metis split_list_first)
          then have "split 47 u = a # split 47 b" by (simp add: split_at_separator)
          with s' have "split 47 b = []" by simp
          with split_nonempty show False by blast
        qed
      qed
      with True \<open>d = []\<close> show ?thesis by (simp add: js_slash)
    next
      case False
      obtain p ps where ps: "split 47 u = p # ps"
        using split_nonempty[of 47 u] by (cases "split 47 u") auto
      with Cons.prems False have "d = c # p" and "ps = [f]" by auto
      with ps Cons.IH[of p] have "u = p @ js ''/'' @ f" by simp
      with \<open>d = c # p\<close> show ?thesis by simp
    qed
  qed
  with n show "\<exists>d f. u = d @ js ''/'' @ f \<and> validName d \<and> validName f" by blast
next
  assume "\<exists>d f. u = d @ js ''/'' @ f \<and> validName d \<and> validName f"
  then obtain d f where "u = d @ js ''/'' @ f" and "validName d" and "validName f" by blast
  then show "validRelative u"
    by (simp add: validRelative_def js_slash split_at_separator split_no_separator validName_def)
qed

lemma relativeLocation_eq:
  assumes "validName d" and "validName f"
  shows "relativeLocation (d @ js ''/'' @ f) = InDirectory d f"
  using assms
  by (simp add: relativeLocation_def js_slash split_at_separator split_no_separator
      validName_def piece_def)

lemma validRelative_nonempty: "validRelative u \<Longrightarrow> u \<noteq> []"
  by (auto simp: validRelative_iff js_slash)

lemma relativeLocation_inj:
  assumes "validRelative u" and "validRelative v" and "relativeLocation u = relativeLocation v"
  shows "u = v"
proof -
  from assms(1) obtain d f where u: "u = d @ js ''/'' @ f" "validName d" "validName f"
    by (auto simp: validRelative_iff)
  from assms(2) obtain d' f' where v: "v = d' @ js ''/'' @ f'" "validName d'" "validName f'"
    by (auto simp: validRelative_iff)
  from assms(3) u v show ?thesis by (simp add: relativeLocation_eq)
qed

lemma relativePathOf_location:
  assumes "validRelative u" and "relativePathOf md = u"
  shows "locationOf md = relativeLocation u"
proof -
  obtain d f where p: "calculateTargetPath md = (d, f)" by (cases "calculateTargetPath md")
  from assms(1) obtain d' f' where u: "u = d' @ js ''/'' @ f'" "validName d'" "validName f'"
    by (auto simp: validRelative_iff)
  from calculateTargetPath_names[OF p] have nd: "47 \<notin> set d" by (auto simp: validName_def)
  from u have nd': "47 \<notin> set d'" by (simp add: validName_def)
  from assms(2) p u have eq: "d @ js ''/'' @ f = d' @ js ''/'' @ f'"
    by (simp add: relativePathOf_eq)
  from relative_path_eq[OF eq nd nd'] have "d = d' \<and> f = f'" .
  with u p show ?thesis
    by (simp add: locationOf_eq relativeLocation_eq targetLocation_def validName_def)
qed

lemma location_relativePathOf:
  assumes "locationOf md = InDirectory d f"
  shows "relativePathOf md = d @ js ''/'' @ f"
proof -
  obtain d' f' where p: "calculateTargetPath md = (d', f')" by (cases "calculateTargetPath md")
  with assms have "d' = d \<and> f' = f"
    by (auto simp: locationOf_eq targetLocation_def split: if_splits)
  with p show ?thesis by (simp add: relativePathOf_eq)
qed

lemma relativePathOf_nonempty: "relativePathOf md \<noteq> []"
  by (cases "calculateTargetPath md") (simp add: relativePathOf_def js_slash)

lemma locationOf_not_dotfree_root:
  "locationOf md = RootLevel x \<Longrightarrow> 46 \<in> set x"
proof -
  assume a: "locationOf md = RootLevel x"
  obtain d f where p: "calculateTargetPath md = (d, f)" by (cases "calculateTargetPath md")
  with a have "x = f" by (auto simp: locationOf_eq targetLocation_def split: if_splits)
  with calculateTargetPath_names[OF p] show ?thesis by simp
qed

lemma directory_not_location:
  "46 \<notin> set d \<Longrightarrow> locationOf md \<noteq> RootLevel d"
  using locationOf_not_dotfree_root by blast

subsection \<open>One step of the second loop\<close>

lemma removesOnly_changesOnly:
  assumes "removesOnly w w' l"
  shows "changesOnly w w' l None"
proof -
  from assms have s: "sameSetting w w'"
    and o: "\<forall>l'. l' \<noteq> l \<longrightarrow> entryAt w' l' = entryAt w l'"
    and n: "fileAt w' l = None"
    and a: "entryAt w' l = entryAt w l \<or> fileAt w l \<noteq> None"
    and t: "\<forall>k. targetLinks w' k \<le> targetLinks w k"
    and wf: "wellFormedTarget w \<longrightarrow> wellFormedTarget w'"
    by (simp_all add: removesOnly_def)
  from o have f: "\<forall>l'. l' \<noteq> l \<longrightarrow> fileAt w' l' = fileAt w l'" by (simp add: fileAt_def)
  have k: "\<forall>l'. entryAt w l' = Some DirectoryEntry \<longrightarrow> entryAt w' l' = Some DirectoryEntry"
  proof (intro allI impI)
    fix l' assume dir: "entryAt w l' = Some DirectoryEntry"
    show "entryAt w' l' = Some DirectoryEntry"
    proof (cases "l' = l")
      case True
      from dir True have "fileAt w l = None" by (simp add: fileAt_def)
      with a dir True show ?thesis by simp
    next
      case False
      with o dir show ?thesis by simp
    qed
  qed
  from o have e: "\<forall>l'. l' \<noteq> l \<longrightarrow>
      entryAt w' l' = entryAt w l' \<or> (\<exists>d. l' = RootLevel d \<and> 46 \<notin> set d)" by simp
  from n have x: "fileAt w' l = fileAt w l \<or> fileAt w' l = None" by simp
  from t have t': "\<forall>k. Some k \<noteq> None \<longrightarrow> targetLinks w' k \<le> targetLinks w k" by simp
  from s f x k e t' wf show ?thesis unfolding changesOnly_def by blast
qed

lemma prune_step:
  assumes "regular w" and "validName d" and "validName f"
  shows "removesOnly w (snd (safeUnlink (unusedFilePath w (d @ js ''/'' @ f)) w)) (InDirectory d f)"
proof -
  let ?tp = "outDir w @ js ''/'' @ d @ js ''/'' @ f"
  let ?l = "InDirectory d f"
  note safe = regular_safeRoot[OF assms(1)]
  have path: "unusedFilePath w (d @ js ''/'' @ f) = ?tp"
    using assms(2,3) by (simp add: unusedFilePath_relative validName_def)
  have res: "resolve w ?tp = Some ?l"
    using resolve_target[of f d w] assms(2,3) by (simp add: targetLocation_def validName_def)
  show ?thesis
  proof (cases "\<exists>i. entryAt w ?l = Some (FileEntry i)")
    case True
    then obtain i where i: "entryAt w ?l = Some (FileEntry i)" by blast
    show ?thesis
    proof (rule unlink_file[OF res i regular_call[OF assms(1)]])
      fix w'
      assume u: "unlink ?tp w = (None, w')" and s: "sameSetting w w'"
        and e: "entryAt w' ?l = None"
        and o: "\<And>l'. l' \<noteq> ?l \<Longrightarrow> entryAt w' l' = entryAt w l'"
        and t: "\<And>j. targetLinks w' j \<le> targetLinks w j"
        and wf: "wellFormedTarget w \<Longrightarrow> wellFormedTarget w'"
      have su: "snd (safeUnlink (unusedFilePath w (d @ js ''/'' @ f)) w) = w'"
        using safeUnlink_target[OF safe, of d f] u path by simp
      from i have "fileAt w ?l \<noteq> None" by (simp add: fileAt_def)
      with s e o t wf have "removesOnly w w' ?l"
        unfolding removesOnly_def by (simp add: fileAt_def)
      with su show ?thesis by simp
    qed
  next
    case False
    then have "\<forall>i. entryAt w ?l \<noteq> Some (FileEntry i)" by simp
    from unlink_no_file[OF res this] obtain e where
      u: "unlink ?tp w = (Some e, w\<lparr>calls := calls w @ [(Unlink ?tp, Some e)]\<rparr>)" by blast
    have su: "snd (safeUnlink (unusedFilePath w (d @ js ''/'' @ f)) w)
        = w\<lparr>calls := calls w @ [(Unlink ?tp, Some e)]\<rparr>"
      using safeUnlink_target[OF safe, of d f] u path by simp
    from False have "fileAt w ?l = None"
      by (auto simp: fileAt_def split: option.splits entryKind.splits)
    then have "removesOnly w (w\<lparr>calls := calls w @ [(Unlink ?tp, Some e)]\<rparr>) ?l"
      unfolding removesOnly_def by simp
    with su show ?thesis by simp
  qed
qed

lemma removesOnly_directory:
  assumes "removesOnly w w' l" and "entryAt w l0 = Some DirectoryEntry"
  shows "entryAt w' l0 = Some DirectoryEntry"
  using changesOnly_directory[OF removesOnly_changesOnly[OF assms(1)] assms(2)] .

lemma removesOnly_outsideInvariant:
  assumes "removesOnly w w' l" and "outsideInvariant w"
  shows "outsideInvariant w'"
  using changesOnly_outsideInvariant[OF removesOnly_changesOnly[OF assms(1)] assms(2)] by simp

text \<open>The second loop.\<close>

lemma pruneAll_effect:
  assumes "regular w" and "\<forall>u\<in>set us. validRelative u"
  shows "sameSetting w (pruneAll us w)
     \<and> (\<forall>l. l \<notin> relativeLocation ` set us \<longrightarrow> entryAt (pruneAll us w) l = entryAt w l)
     \<and> (\<forall>l. fileAt (pruneAll us w) l = fileAt w l \<or> fileAt (pruneAll us w) l = None)
     \<and> (\<forall>u\<in>set us. fileAt (pruneAll us w) (relativeLocation u) = None)
     \<and> (wellFormedTarget w \<longrightarrow> wellFormedTarget (pruneAll us w))
     \<and> (outsideInvariant w \<longrightarrow> outsideInvariant (pruneAll us w))
     \<and> (\<forall>l. entryAt w l = Some DirectoryEntry \<longrightarrow> entryAt (pruneAll us w) l = Some DirectoryEntry)"
  using assms
proof (induction us arbitrary: w)
  case Nil
  then show ?case by (simp add: sameSetting_refl)
next
  case (Cons u us)
  from Cons.prems(2) obtain d f where u: "u = d @ js ''/'' @ f" and n: "validName d" "validName f"
    by (auto simp: validRelative_iff)
  define w1 where "w1 = snd (safeUnlink (unusedFilePath w u) w)"
  from prune_step[OF Cons.prems(1) n] u have r: "removesOnly w w1 (InDirectory d f)"
    by (simp add: w1_def)
  have loc: "relativeLocation u = InDirectory d f" using u n by (simp add: relativeLocation_eq)
  from r have s1: "sameSetting w w1" by (simp add: removesOnly_def)
  then have safe1: "regular w1" using Cons.prems(1) sameSetting_regular by blast
  from Cons.prems(2) have rest: "\<forall>u\<in>set us. validRelative u" by simp
  note ih = Cons.IH[OF safe1 rest]
  note ih1 = ih[THEN conjunct1]
  note ih2 = ih[THEN conjunct2, THEN conjunct1]
  note ih3 = ih[THEN conjunct2, THEN conjunct2, THEN conjunct1]
  note ih4 = ih[THEN conjunct2, THEN conjunct2, THEN conjunct2, THEN conjunct1]
  note ih5 = ih[THEN conjunct2, THEN conjunct2, THEN conjunct2, THEN conjunct2, THEN conjunct1]
  note ih6 = ih[THEN conjunct2, THEN conjunct2, THEN conjunct2, THEN conjunct2, THEN conjunct2,
      THEN conjunct1]
  note ih7 = ih[THEN conjunct2, THEN conjunct2, THEN conjunct2, THEN conjunct2, THEN conjunct2,
      THEN conjunct2]
  have step: "pruneAll (u # us) w = pruneAll us w1" by (simp add: w1_def)
  have 1: "sameSetting w (pruneAll (u # us) w)"
    using sameSetting_trans[OF s1 ih1] step by simp
  have 2: "entryAt (pruneAll (u # us) w) l = entryAt w l"
    if "l \<notin> relativeLocation ` set (u # us)" for l
  proof -
    from that loc have "l \<noteq> InDirectory d f" and "l \<notin> relativeLocation ` set us" by auto
    with ih2 r step show ?thesis by (simp add: removesOnly_def)
  qed
  have shrink1: "fileAt w1 l = fileAt w l \<or> fileAt w1 l = None" for l
    using r by (cases "l = InDirectory d f") (auto simp: removesOnly_def fileAt_def)
  have 3: "fileAt (pruneAll (u # us) w) l = fileAt w l \<or> fileAt (pruneAll (u # us) w) l = None"
    for l
  proof -
    from ih3 have "fileAt (pruneAll us w1) l = fileAt w1 l \<or> fileAt (pruneAll us w1) l = None"
      by (rule spec)
    with shrink1[of l] step show ?thesis by auto
  qed
  have 4: "fileAt (pruneAll (u # us) w) (relativeLocation v) = None" if "v \<in> set (u # us)" for v
  proof (cases "v \<in> set us")
    case True
    with ih4 step show ?thesis by simp
  next
    case False
    with that have "v = u" by simp
    from r have "fileAt w1 (InDirectory d f) = None" by (simp add: removesOnly_def)
    moreover from ih3 have "fileAt (pruneAll us w1) (InDirectory d f) = fileAt w1 (InDirectory d f)
        \<or> fileAt (pruneAll us w1) (InDirectory d f) = None" by (rule spec)
    ultimately show ?thesis using step loc \<open>v = u\<close> by auto
  qed
  have 5: "wellFormedTarget (pruneAll (u # us) w)" if "wellFormedTarget w"
    using that r ih5 step by (simp add: removesOnly_def)
  have 6: "outsideInvariant (pruneAll (u # us) w)" if "outsideInvariant w"
    using removesOnly_outsideInvariant[OF r that] ih6 step by simp
  have 7: "entryAt (pruneAll (u # us) w) l = Some DirectoryEntry"
    if "entryAt w l = Some DirectoryEntry" for l
    using removesOnly_directory[OF r that] ih7 step by simp
  from 1 2 3 4 5 6 7 show ?case by (intro conjI allI impI ballI) auto
qed

text \<open>Where no listed file is left, the second loop changes nothing.\<close>

lemma pruneAll_quiet:
  assumes "regular w" and "\<forall>u\<in>set us. validRelative u \<and> fileAt w (relativeLocation u) = None"
  shows "quietly w (pruneAll us w)"
  using assms
proof (induction us arbitrary: w)
  case Nil
  then show ?case by (simp add: quietly_refl)
next
  case (Cons u us)
  from Cons.prems(2) obtain d f where u: "u = d @ js ''/'' @ f" and n: "validName d" "validName f"
    by (auto simp: validRelative_iff)
  let ?tp = "outDir w @ js ''/'' @ d @ js ''/'' @ f"
  have loc: "relativeLocation u = InDirectory d f" using u n by (simp add: relativeLocation_eq)
  have path: "unusedFilePath w u = ?tp"
    using n u by (simp add: unusedFilePath_relative validName_def)
  have res: "resolve w ?tp = Some (InDirectory d f)"
    using resolve_target[of f d w] n by (simp add: targetLocation_def validName_def)
  from Cons.prems(2) loc have "fileAt w (InDirectory d f) = None" by simp
  then have "\<forall>i. entryAt w (InDirectory d f) \<noteq> Some (FileEntry i)"
    using fileAt_Some[of w "InDirectory d f"] by (metis option.distinct(1))
  from unlink_no_file[OF res this] obtain e where
    ul: "unlink ?tp w = (Some e, w\<lparr>calls := calls w @ [(Unlink ?tp, Some e)]\<rparr>)" by blast
  define w1 where "w1 = w\<lparr>calls := calls w @ [(Unlink ?tp, Some e)]\<rparr>"
  have su: "snd (safeUnlink (unusedFilePath w u) w) = w1"
    using safeUnlink_target[OF regular_safeRoot[OF Cons.prems(1)], of d f] ul path
    by (simp add: w1_def)
  have q1: "quietly w w1" unfolding w1_def by (rule quietly_call) (simp add: performed_def)
  have reg1: "regular w1" using Cons.prems(1) by (simp add: w1_def)
  have rest: "\<forall>u\<in>set us. validRelative u \<and> fileAt w1 (relativeLocation u) = None"
    using Cons.prems(2) by (simp add: w1_def)
  from quietly_trans[OF q1 Cons.IH[OF reg1 rest]] su show ?case by simp
qed

text \<open>
  Whatever the outcomes of its calls, the second loop leaves every entry at the target root
  as it is.
\<close>

lemma safeUnlink_elsewhere:
  assumes "resolve w p = Some l"
  shows "sameSetting w (snd (safeUnlink p w))
     \<and> (\<forall>l'. l' \<noteq> l \<longrightarrow> entryAt (snd (safeUnlink p w)) l' = entryAt w l')"
proof (cases "length (filter (\<lambda>c. c = 47) p) < 2 \<or> startsWith p (js ''//'')")
  case True
  then show ?thesis by (simp add: safeUnlink_def sameSetting_refl)
next
  case False
  then have "snd (safeUnlink p w) = snd (unlink p w)"
    by (cases "unlink p w") (auto simp: safeUnlink_def split: option.splits)
  with unlink_elsewhere[OF assms] show ?thesis by simp
qed

lemma pruneAll_root:
  assumes "\<forall>u\<in>set us. validRelative u"
  shows "entryAt (pruneAll us w) (RootLevel x) = entryAt w (RootLevel x)"
  using assms
proof (induction us arbitrary: w)
  case Nil
  then show ?case by simp
next
  case (Cons u us)
  from Cons.prems obtain d f where u: "u = d @ js ''/'' @ f" and n: "validName d" "validName f"
    by (auto simp: validRelative_iff)
  have path: "unusedFilePath w u = outDir w @ js ''/'' @ d @ js ''/'' @ f"
    using n u by (simp add: unusedFilePath_relative validName_def)
  have res: "resolve w (unusedFilePath w u) = Some (InDirectory d f)"
    unfolding path using resolve_target[of f d w] n by (simp add: targetLocation_def validName_def)
  have "RootLevel x \<noteq> InDirectory d f" by simp
  with safeUnlink_elsewhere[OF res]
  have "entryAt (snd (safeUnlink (unusedFilePath w u) w)) (RootLevel x) = entryAt w (RootLevel x)"
    by blast
  moreover from Cons.prems have "\<forall>u\<in>set us. validRelative u" by simp
  ultimately show ?case using Cons.IH[of "snd (safeUnlink (unusedFilePath w u) w)"] by simp
qed

subsection \<open>The first loop\<close>

lemma linkAll_Cons:
  "linkAll ((s, m) # es) tf w =
     (case linkFile s m w of (r, w1) \<Rightarrow> linkAll es (reconfirm r tf) w1)"
  by (simp add: reconfirm_def split: prod.splits option.splits)

lemma set_reconfirm_subset: "set (reconfirm r tf) \<subseteq> set tf"
  by (auto simp: reconfirm_def setDelete_def split: option.splits)

lemma reconfirm_removes: "p \<noteq> [] \<Longrightarrow> p \<notin> set (reconfirm (Some p) tf)"
  by (auto simp: reconfirm_def setDelete_def)

lemma reconfirm_keeps: "q \<in> set tf \<Longrightarrow> r \<noteq> Some q \<Longrightarrow> q \<in> set (reconfirm r tf)"
  by (auto simp: reconfirm_def setDelete_def split: option.splits)

lemma validSource_sameSetting: "sameSetting w w' \<Longrightarrow> validSource w' s = validSource w s"
  using sameSetting_sourceInodes[of w w'] by (simp add: validSource_def)

lemma linkAll_subset: "set (fst (linkAll es tf w)) \<subseteq> set tf"
proof (induction es arbitrary: tf w)
  case Nil
  then show ?case by simp
next
  case (Cons a es)
  obtain s m where a: "a = (s, m)" by (cases a)
  obtain r w1 where l: "linkFile s m w = (r, w1)" by (cases "linkFile s m w")
  from Cons.IH[of "reconfirm r tf" w1] set_reconfirm_subset[of r tf]
  show ?case unfolding a linkAll_Cons l by auto
qed

lemma linkAll_general:
  assumes step: "\<And>pre s m post tf w r w1.
        es = pre @ (s, m) # post \<Longrightarrow> I pre tf w \<Longrightarrow> regular w \<Longrightarrow> validSource w s \<Longrightarrow>
        sameSetting w0 w \<Longrightarrow> linkFile s m w = (r, w1) \<Longrightarrow> I (pre @ [(s, m)]) (reconfirm r tf) w1"
    and "\<forall>(s, m)\<in>set es. validSource w0 s"
  shows "es = pre @ rest \<Longrightarrow> I pre tf w \<Longrightarrow> regular w \<Longrightarrow> sameSetting w0 w \<Longrightarrow>
         I (pre @ rest) (fst (linkAll rest tf w)) (snd (linkAll rest tf w))"
proof (induction rest arbitrary: pre tf w)
  case Nil
  then show ?case by simp
next
  case (Cons a rest)
  obtain s m where a: "a = (s, m)" by (cases a)
  obtain r w1 where l: "linkFile s m w = (r, w1)" by (cases "linkFile s m w")
  from Cons.prems(1) a have es: "es = pre @ (s, m) # rest" by simp
  then have "(s, m) \<in> set es" by simp
  with assms(2) have "validSource w0 s" by auto
  with validSource_sameSetting[OF Cons.prems(4)] have v: "validSource w s" by simp
  from step[OF es Cons.prems(2,3) v Cons.prems(4) l]
  have i: "I (pre @ [(s, m)]) (reconfirm r tf) w1" .
  from linkFile_changesOnly[OF Cons.prems(3) v l] have s1: "sameSetting w w1"
    by (rule changesOnly_sameSetting)
  with Cons.prems(3) have safe: "regular w1" using sameSetting_regular by blast
  from sameSetting_trans[OF Cons.prems(4) s1] have s0: "sameSetting w0 w1" .
  from es have es': "es = (pre @ [(s, m)]) @ rest" by simp
  from Cons.IH[OF es' i safe s0] show ?case unfolding a linkAll_Cons l by simp
qed

lemma linkAll_rule:
  assumes "regular w0" and "\<forall>(s, m)\<in>set es. validSource w0 s" and "I [] tf0 w0"
    and "\<And>pre s m post tf w r w1.
        es = pre @ (s, m) # post \<Longrightarrow> I pre tf w \<Longrightarrow> regular w \<Longrightarrow> validSource w s \<Longrightarrow>
        sameSetting w0 w \<Longrightarrow> linkFile s m w = (r, w1) \<Longrightarrow> I (pre @ [(s, m)]) (reconfirm r tf) w1"
  shows "I es (fst (linkAll es tf0 w0)) (snd (linkAll es tf0 w0))"
  using linkAll_general[of es I w0 "[]" es tf0 w0, OF assms(4,2) _ assms(3,1) sameSetting_refl]
  by simp

text \<open>Single steps, for the invariants of the loop.\<close>

lemma linkFile_keeps_presence:
  assumes "regular w" and "validSource w s" and "linkFile s m w = (r, w1)"
    and "fileAt w l \<noteq> None"
  shows "fileAt w1 l \<noteq> None"
proof (cases "hasTitle m \<and> l = locationOf m")
  case True
  with linkFile_present_stays[OF assms(1,2,3)] assms(4) show ?thesis by simp
next
  case False
  show ?thesis
  proof (cases "hasTitle m")
    case True
    with False have "l \<noteq> locationOf m" by simp
    from changesOnly_fileAt[OF linkFile_changesOnly[OF assms(1,2,3)] this] assms(4)
    show ?thesis by simp
  next
    case no: False
    with assms(3,4) show ?thesis by (simp add: linkFile_no_title)
  qed
qed

lemma linkFile_keeps_settled:
  assumes "regular w" and "validSource w s" and "linkFile s m w = (r, w1)"
    and "settled w l"
  shows "settled w1 l \<and> entryAt w1 l = entryAt w l"
proof (cases "hasTitle m")
  case False
  with assms(3,4) show ?thesis by (simp add: linkFile_no_title)
next
  case True
  show ?thesis
  proof (cases "l = locationOf m")
    case same: True
    with assms(4) have "settled w (locationOf m)" by simp
    from linkFile_settled_quiet[OF assms(1) True this, of s] assms(3) have q: "quietly w w1"
      by auto
    from settled_quietly[OF q, of l] quietly_entryAt[OF q, of l] assms(4) show ?thesis by simp
  next
    case False
    from changesOnly_settled[OF linkFile_changesOnly[OF assms(1,2,3)] False assms(4)]
    show ?thesis .
  qed
qed

lemma linkFile_keeps_invariant:
  assumes "regular w" and "validSource w s" and "linkFile s m w = (r, w1)"
    and "outsideInvariant w"
  shows "outsideInvariant w1"
proof -
  have "\<forall>k. map_of (sourceInodes w) s = Some k \<longrightarrow> 1 \<le> outsideLinks w k"
    using source_outsideLinks by blast
  from changesOnly_outsideInvariant[OF linkFile_changesOnly[OF assms(1,2,3)] assms(4) this]
  show ?thesis .
qed

lemma linkFile_keeps_blocked:
  assumes "regular w" and "validSource w s" and "linkFile s m w = (r, w1)"
    and "46 \<notin> set d"
  shows "blocked w1 d = blocked w d"
  using changesOnly_blocked[OF linkFile_changesOnly[OF assms(1,2,3)]]
    directory_not_location[OF assms(4)] by simp

lemma linkFile_frame:
  assumes "regular w" and "validSource w s" and "linkFile s m w = (r, w1)"
    and "hasTitle m \<longrightarrow> locationOf m \<noteq> l"
  shows "fileAt w1 l = fileAt w l
     \<and> ((\<forall>d. l = RootLevel d \<longrightarrow> 46 \<in> set d) \<longrightarrow> entryAt w1 l = entryAt w l)"
proof (cases "hasTitle m")
  case False
  with assms(3) show ?thesis by (simp add: linkFile_no_title)
next
  case True
  with assms(4) have ne: "l \<noteq> locationOf m" by auto
  note c = linkFile_changesOnly[OF assms(1,2,3)]
  from changesOnly_fileAt[OF c ne] changesOnly_entryAt[OF c ne] show ?thesis by blast
qed

text \<open>The loop keeps what its steps keep.\<close>

lemma linkAll_basic:
  assumes "regular w0" and "\<forall>(s, m)\<in>set es. validSource w0 s"
  shows "sameSetting w0 (snd (linkAll es tf0 w0))
     \<and> set (fst (linkAll es tf0 w0)) \<subseteq> set tf0
     \<and> (wellFormedTarget w0 \<longrightarrow> wellFormedTarget (snd (linkAll es tf0 w0)))
     \<and> (outsideInvariant w0 \<longrightarrow> outsideInvariant (snd (linkAll es tf0 w0)))"
proof (rule linkAll_rule[where I = "\<lambda>pre tf w. sameSetting w0 w \<and> set tf \<subseteq> set tf0
     \<and> (wellFormedTarget w0 \<longrightarrow> wellFormedTarget w)
     \<and> (outsideInvariant w0 \<longrightarrow> outsideInvariant w)", OF assms])
  show "sameSetting w0 w0 \<and> set tf0 \<subseteq> set tf0
     \<and> (wellFormedTarget w0 \<longrightarrow> wellFormedTarget w0)
     \<and> (outsideInvariant w0 \<longrightarrow> outsideInvariant w0)"
    by (simp add: sameSetting_refl)
next
  fix pre s m post tf w r w1
  assume i: "sameSetting w0 w \<and> set tf \<subseteq> set tf0
     \<and> (wellFormedTarget w0 \<longrightarrow> wellFormedTarget w)
     \<and> (outsideInvariant w0 \<longrightarrow> outsideInvariant w)"
    and safe: "regular w" and v: "validSource w s" and l: "linkFile s m w = (r, w1)"
  note c = linkFile_changesOnly[OF safe v l]
  from i changesOnly_sameSetting[OF c] have 1: "sameSetting w0 w1"
    using sameSetting_trans by blast
  from i set_reconfirm_subset[of r tf] have 2: "set (reconfirm r tf) \<subseteq> set tf0" by blast
  from i changesOnly_wellFormed[OF c] have 3: "wellFormedTarget w0 \<longrightarrow> wellFormedTarget w1"
    by blast
  from i linkFile_keeps_invariant[OF safe v l] have 4: "outsideInvariant w0 \<longrightarrow> outsideInvariant w1"
    by blast
  from 1 2 3 4 show "sameSetting w0 w1 \<and> set (reconfirm r tf) \<subseteq> set tf0
     \<and> (wellFormedTarget w0 \<longrightarrow> wellFormedTarget w1)
     \<and> (outsideInvariant w0 \<longrightarrow> outsideInvariant w1)" by simp
qed

lemma linkAll_frame:
  assumes "regular w0" and "\<forall>(s, m)\<in>set es. validSource w0 s"
    and "\<forall>(s, m)\<in>set es. hasTitle m \<longrightarrow> locationOf m \<noteq> l"
  shows "fileAt (snd (linkAll es tf0 w0)) l = fileAt w0 l
     \<and> ((\<forall>d. l = RootLevel d \<longrightarrow> 46 \<in> set d) \<longrightarrow> entryAt (snd (linkAll es tf0 w0)) l = entryAt w0 l)"
proof (rule linkAll_rule[where I = "\<lambda>pre tf w. fileAt w l = fileAt w0 l
     \<and> ((\<forall>d. l = RootLevel d \<longrightarrow> 46 \<in> set d) \<longrightarrow> entryAt w l = entryAt w0 l)", OF assms(1,2)])
  show "fileAt w0 l = fileAt w0 l
     \<and> ((\<forall>d. l = RootLevel d \<longrightarrow> 46 \<in> set d) \<longrightarrow> entryAt w0 l = entryAt w0 l)" by simp
next
  fix pre s m post tf w r w1
  assume es: "es = pre @ (s, m) # post"
    and i: "fileAt w l = fileAt w0 l
     \<and> ((\<forall>d. l = RootLevel d \<longrightarrow> 46 \<in> set d) \<longrightarrow> entryAt w l = entryAt w0 l)"
    and safe: "regular w" and v: "validSource w s" and l: "linkFile s m w = (r, w1)"
  from es have "(s, m) \<in> set es" by simp
  with assms(3) have "hasTitle m \<longrightarrow> locationOf m \<noteq> l" by auto
  from linkFile_frame[OF safe v l this] i
  show "fileAt w1 l = fileAt w0 l
     \<and> ((\<forall>d. l = RootLevel d \<longrightarrow> 46 \<in> set d) \<longrightarrow> entryAt w1 l = entryAt w0 l)" by simp
qed


lemma linkAll_presence:
  assumes "regular w0" and "\<forall>(s, m)\<in>set es. validSource w0 s" and "fileAt w0 l \<noteq> None"
  shows "fileAt (snd (linkAll es tf0 w0)) l \<noteq> None"
proof (rule linkAll_rule[where I = "\<lambda>pre tf w. fileAt w l \<noteq> None", OF assms(1,2,3)])
  fix pre s m post tf w r w1
  assume i: "fileAt w l \<noteq> None"
    and safe: "regular w" and v: "validSource w s" and l: "linkFile s m w = (r, w1)"
  from linkFile_keeps_presence[OF safe v l i] show "fileAt w1 l \<noteq> None" .
qed


lemma linkAll_kept:
  assumes "regular w0" and "\<forall>(s, m)\<in>set es. validSource w0 s" and "p \<in> set tf0"
    and "\<forall>(s, m)\<in>set es. \<not> correspondsTo m p"
  shows "p \<in> set (fst (linkAll es tf0 w0))"
proof (rule linkAll_rule[where I = "\<lambda>pre tf w. p \<in> set tf", OF assms(1,2,3)])
  fix pre s m post tf w r w1
  assume es: "es = pre @ (s, m) # post" and i: "p \<in> set tf"
    and safe: "regular w" and v: "validSource w s" and l: "linkFile s m w = (r, w1)"
  from es have "(s, m) \<in> set es" by simp
  with assms(4) have "\<not> correspondsTo m p" by auto
  with linkFile_result[OF safe v l] have "r \<noteq> Some p" by (auto simp: correspondsTo_def)
  from reconfirm_keeps[OF i this] show "p \<in> set (reconfirm r tf)" .
qed

lemma linkAll_reconfirmed:
  assumes "regular w0" and "\<forall>(s, m)\<in>set es. validSource w0 s" and "(s0, m0) \<in> set es"
    and "hasTitle m0" and "fileAt w0 (locationOf m0) \<noteq> None"
  shows "relativePathOf m0 \<notin> set (fst (linkAll es tf0 w0))"
proof -
  have "fileAt (snd (linkAll es tf0 w0)) (locationOf m0) \<noteq> None
      \<and> ((s0, m0) \<in> set es \<longrightarrow> relativePathOf m0 \<notin> set (fst (linkAll es tf0 w0)))"
  proof (rule linkAll_rule[where I = "\<lambda>pre tf w. fileAt w (locationOf m0) \<noteq> None
      \<and> ((s0, m0) \<in> set pre \<longrightarrow> relativePathOf m0 \<notin> set tf)", OF assms(1,2)])
    from assms(5) show "fileAt w0 (locationOf m0) \<noteq> None
      \<and> ((s0, m0) \<in> set [] \<longrightarrow> relativePathOf m0 \<notin> set tf0)" by simp
  next
    fix pre s m post tf w r w1
    assume i: "fileAt w (locationOf m0) \<noteq> None
      \<and> ((s0, m0) \<in> set pre \<longrightarrow> relativePathOf m0 \<notin> set tf)"
      and safe: "regular w" and v: "validSource w s" and l: "linkFile s m w = (r, w1)"
    from i have p: "fileAt w (locationOf m0) \<noteq> None" by simp
    from linkFile_keeps_presence[OF safe v l p] have 1: "fileAt w1 (locationOf m0) \<noteq> None" .
    have 2: "relativePathOf m0 \<notin> set (reconfirm r tf)" if "(s0, m0) \<in> set (pre @ [(s, m)])"
    proof (cases "(s0, m0) \<in> set pre")
      case True
      with i set_reconfirm_subset[of r tf] show ?thesis by blast
    next
      case False
      with that have "m = m0" by simp
      with linkFile_present_stays[OF safe v l] assms(4) p have "r = Some (relativePathOf m0)"
        by simp
      with reconfirm_removes[OF relativePathOf_nonempty, of m0 tf] show ?thesis by simp
    qed
    from 1 2 show "fileAt w1 (locationOf m0) \<noteq> None
      \<and> ((s0, m0) \<in> set (pre @ [(s, m)]) \<longrightarrow> relativePathOf m0 \<notin> set (reconfirm r tf))"
      by blast
  qed
  with assms(3) show ?thesis by simp
qed



subsection \<open>What the first loop reaches\<close>

lemma calculateTargetPath_directory_dotfree: "46 \<notin> set (fst (calculateTargetPath md))"
proof -
  obtain d f where c: "calculateTargetPath md = (d, f)" by (cases "calculateTargetPath md")
  from calculateTargetPath_names[OF c] c show ?thesis by simp
qed

lemma settled_same_tree:
  assumes "targetTree w' = targetTree w" and "sameSetting w w'"
  shows "settled w' l = settled w l"
  using entryAt_same_tree[OF assms(1), of l] sameSetting_outsideLinks[OF assms(2)]
  by (simp add: settled_def split: option.splits entryKind.splits)

lemma blocked_same_tree:
  assumes "targetTree w' = targetTree w"
  shows "blocked w' d = blocked w d"
  using entryAt_same_tree[OF assms(1), of "RootLevel d"] by (simp add: blocked_def)

lemma linkAll_settles:
  assumes "regular w0" and "\<forall>(s, m)\<in>set es. validSource w0 s" and "outsideInvariant w0"
  shows "\<forall>(s, m)\<in>set es. hasTitle m \<longrightarrow>
           blocked (snd (linkAll es tf0 w0)) (fst (calculateTargetPath m))
           \<or> (settled (snd (linkAll es tf0 w0)) (locationOf m)
              \<and> relativePathOf m \<notin> set (fst (linkAll es tf0 w0)))
           \<or> entryAt (snd (linkAll es tf0 w0)) (locationOf m) = Some DirectoryEntry"
proof -
  let ?I = "\<lambda>pre tf w. outsideInvariant w \<and> (\<forall>(s, m)\<in>set pre. hasTitle m \<longrightarrow>
           blocked w (fst (calculateTargetPath m))
           \<or> (settled w (locationOf m) \<and> relativePathOf m \<notin> set tf)
           \<or> entryAt w (locationOf m) = Some DirectoryEntry)"
  have "?I es (fst (linkAll es tf0 w0)) (snd (linkAll es tf0 w0))"
  proof (rule linkAll_rule[where I = ?I, OF assms(1,2)])
    from assms(3) show "?I [] tf0 w0" by simp
  next
    fix pre s m post tf w r w1
    assume es: "es = pre @ (s, m) # post" and i: "?I pre tf w"
      and safe: "regular w" and v: "validSource w s" and l: "linkFile s m w = (r, w1)"
    from i have inv: "outsideInvariant w" by simp
    from linkFile_keeps_invariant[OF safe v l inv] have 1: "outsideInvariant w1" .
    have new: "blocked w1 (fst (calculateTargetPath m))
           \<or> (settled w1 (locationOf m) \<and> relativePathOf m \<notin> set (reconfirm r tf))
           \<or> entryAt w1 (locationOf m) = Some DirectoryEntry"
      if t: "hasTitle m"
    proof (cases "blocked w (fst (calculateTargetPath m))")
      case True
      from linkFile_blocked_quiet[OF t True, of s] l have "quietly w w1" by auto
      from blocked_quietly[OF this] True show ?thesis by simp
    next
      case False
      from linkFile_settles[OF safe v l t False inv]
      have "(r = Some (relativePathOf m) \<and> settled w1 (locationOf m))
         \<or> entryAt w1 (locationOf m) = Some DirectoryEntry" .
      with reconfirm_removes[OF relativePathOf_nonempty, of m tf] show ?thesis by auto
    qed
    have old: "blocked w1 (fst (calculateTargetPath m'))
           \<or> (settled w1 (locationOf m') \<and> relativePathOf m' \<notin> set (reconfirm r tf))
           \<or> entryAt w1 (locationOf m') = Some DirectoryEntry"
      if "(s', m') \<in> set pre" and t: "hasTitle m'" for s' m'
    proof -
      from i that have c: "blocked w (fst (calculateTargetPath m'))
           \<or> (settled w (locationOf m') \<and> relativePathOf m' \<notin> set tf)
           \<or> entryAt w (locationOf m') = Some DirectoryEntry" by auto
      show ?thesis
      proof (cases "blocked w (fst (calculateTargetPath m'))")
        case True
        with linkFile_keeps_blocked[OF safe v l calculateTargetPath_directory_dotfree[of m']]
        show ?thesis by simp
      next
        case nb: False
        show ?thesis
        proof (cases "entryAt w (locationOf m') = Some DirectoryEntry")
          case True
          from changesOnly_directory[OF linkFile_changesOnly[OF safe v l] True]
          show ?thesis by simp
        next
          case False
          with nb c have st: "settled w (locationOf m')" and n: "relativePathOf m' \<notin> set tf"
            by simp_all
          from linkFile_keeps_settled[OF safe v l st] have "settled w1 (locationOf m')" by simp
          moreover from n set_reconfirm_subset[of r tf]
          have "relativePathOf m' \<notin> set (reconfirm r tf)" by blast
          ultimately show ?thesis by simp
        qed
      qed
    qed
    from 1 new old show "?I (pre @ [(s, m)]) (reconfirm r tf) w1" by auto
  qed
  then show ?thesis by simp
qed

lemma linkAll_removed:
  assumes "regular w0" and "\<forall>(s, m)\<in>set es. validSource w0 s" and "p \<in> set tf0"
    and "p \<notin> set (fst (linkAll es tf0 w0))"
  shows "\<exists>(s, m)\<in>set es. correspondsTo m p"
  using linkAll_kept[OF assms(1,2,3)] assms(4) by blast

lemma linkAll_created:
  assumes "regular w0" and "\<forall>(s, m)\<in>set es. validSource w0 s"
    and "fileAt (snd (linkAll es tf0 w0)) l \<noteq> fileAt w0 l"
  shows "\<exists>(s, m)\<in>set es. hasTitle m \<and> locationOf m = l"
proof (rule ccontr)
  assume "\<not> (\<exists>(s, m)\<in>set es. hasTitle m \<and> locationOf m = l)"
  then have "\<forall>(s, m)\<in>set es. hasTitle m \<longrightarrow> locationOf m \<noteq> l" by auto
  from linkAll_frame[OF assms(1,2) this] assms(3) show False by simp
qed






text \<open>
  Where every source entry with a title has its directory blocked, or its location settled
  or a directory, the first loop makes and removes no link.
\<close>

lemma linkAll_quiet:
  assumes "regular w0" and "\<forall>(s, m)\<in>set es. validSource w0 s"
    and "\<forall>(s, m)\<in>set es. hasTitle m \<longrightarrow>
           blocked w0 (fst (calculateTargetPath m)) \<or> settled w0 (locationOf m)
           \<or> entryAt w0 (locationOf m) = Some DirectoryEntry"
  shows "quietly w0 (snd (linkAll es tf0 w0))
     \<and> (\<forall>(s, m)\<in>set es. hasTitle m \<and> settled w0 (locationOf m)
           \<longrightarrow> relativePathOf m \<notin> set (fst (linkAll es tf0 w0)))"
proof -
  let ?I = "\<lambda>pre tf w. quietly w0 w
     \<and> (\<forall>(s, m)\<in>set pre. hasTitle m \<and> settled w0 (locationOf m)
           \<longrightarrow> relativePathOf m \<notin> set tf)"
  have "?I es (fst (linkAll es tf0 w0)) (snd (linkAll es tf0 w0))"
  proof (rule linkAll_rule[where I = ?I, OF assms(1,2)])
    show "?I [] tf0 w0" by (simp add: quietly_refl)
  next
    fix pre s m post tf w r w1
    assume es: "es = pre @ (s, m) # post" and i: "?I pre tf w"
      and reg: "regular w" and l: "linkFile s m w = (r, w1)"
    from i have q: "quietly w0 w" by simp
    from es have mem: "(s, m) \<in> set es" by simp
    have step: "quietly w w1
        \<and> (hasTitle m \<and> settled w0 (locationOf m) \<longrightarrow> r = Some (relativePathOf m))"
    proof (cases "hasTitle m")
      case False
      with l have "w1 = w" by (simp add: linkFile_no_title)
      with False show ?thesis by (simp add: quietly_refl)
    next
      case True
      with assms(3) mem
      have c: "blocked w0 (fst (calculateTargetPath m)) \<or> settled w0 (locationOf m)
           \<or> entryAt w0 (locationOf m) = Some DirectoryEntry" by auto
      show ?thesis
      proof (cases "settled w0 (locationOf m)")
        case st: True
        with settled_quietly[OF q] have "settled w (locationOf m)" by simp
        from linkFile_settled_quiet[OF reg True this, of s] l show ?thesis by auto
      next
        case ns: False
        show ?thesis
        proof (cases "blocked w0 (fst (calculateTargetPath m))")
          case b: True
          with blocked_quietly[OF q] have "blocked w (fst (calculateTargetPath m))" by simp
          from linkFile_blocked_quiet[OF True this, of s] l ns show ?thesis by auto
        next
          case False
          with c ns have "entryAt w0 (locationOf m) = Some DirectoryEntry" by simp
          with quietly_entryAt[OF q] have "entryAt w (locationOf m) = Some DirectoryEntry" by simp
          from linkFile_directory_quiet[OF reg True this, of s] l ns show ?thesis by auto
        qed
      qed
    qed
    from step q have q1: "quietly w0 w1" using quietly_trans by blast
    have "relativePathOf m' \<notin> set (reconfirm r tf)"
      if "(s', m') \<in> set (pre @ [(s, m)])" and "hasTitle m'"
        and "settled w0 (locationOf m')" for s' m'
    proof (cases "(s', m') \<in> set pre")
      case True
      with i that have "relativePathOf m' \<notin> set tf" by auto
      with set_reconfirm_subset[of r tf] show ?thesis by blast
    next
      case False
      with that have "m' = m" by simp
      with step that have "r = Some (relativePathOf m')" by simp
      with reconfirm_removes[OF relativePathOf_nonempty, of m' tf] show ?thesis by simp
    qed
    with q1 show "?I (pre @ [(s, m)]) (reconfirm r tf) w1" by auto
  qed
  then show ?thesis by simp
qed

subsection \<open>The scan of the target tree\<close>

lemma set_setAdd: "set (setAdd x xs) = insert x (set xs)"
  by (auto simp: setAdd_def)

lemma distinct_setAdd: "distinct xs \<Longrightarrow> distinct (setAdd x xs)"
  by (simp add: setAdd_def)

lemma set_scanDirectory:
  "set (scanDirectory d es epubs) =
     set epubs \<union> {d @ js ''/'' @ f | f file. (f, file) \<in> set es \<and> file \<noteq> Subdirectory
                     \<and> endsWith f (js ''.epub'')}"
proof (induction es arbitrary: epubs)
  case Nil
  then show ?case by simp
next
  case (Cons a es)
  obtain f fl where a: "a = (f, fl)" by (cases a)
  show ?case unfolding a by (simp add: Cons.IH set_setAdd) blast
qed

lemma distinct_scanDirectory: "distinct epubs \<Longrightarrow> distinct (scanDirectory d es epubs)"
proof (induction es arbitrary: epubs)
  case Nil
  then show ?case by simp
next
  case (Cons a es)
  obtain f fl where a: "a = (f, fl)" by (cases a)
  from Cons.prems show ?case unfolding a by (simp add: Cons.IH distinct_setAdd)
qed

lemma set_scanRoot:
  "set (scanRoot tree epubs) =
     set epubs \<union> {d @ js ''/'' @ f | d es f file. (d, RootDirectory es) \<in> set tree
                     \<and> (f, file) \<in> set es \<and> file \<noteq> Subdirectory \<and> endsWith f (js ''.epub'')}"
proof (induction tree epubs rule: scanRoot.induct)
  case (1 epubs)
  then show ?case by simp
next
  case (2 dirName i seriesDirs epubs)
  then show ?case by simp
next
  case (3 dirName bookFiles seriesDirs epubs)
  have "{d @ js ''/'' @ f | d es f file.
           (d, RootDirectory es) \<in> set ((dirName, RootDirectory bookFiles) # seriesDirs)
           \<and> (f, file) \<in> set es \<and> file \<noteq> Subdirectory \<and> endsWith f (js ''.epub'')}
      = {dirName @ js ''/'' @ f | f file. (f, file) \<in> set bookFiles \<and> file \<noteq> Subdirectory
           \<and> endsWith f (js ''.epub'')}
        \<union> {d @ js ''/'' @ f | d es f file. (d, RootDirectory es) \<in> set seriesDirs
           \<and> (f, file) \<in> set es \<and> file \<noteq> Subdirectory \<and> endsWith f (js ''.epub'')}"
    (is "?A = ?B \<union> ?C")
  proof (rule set_eqI)
    fix p
    show "p \<in> ?A \<longleftrightarrow> p \<in> ?B \<union> ?C"
      unfolding Un_iff mem_Collect_eq set_simps insert_iff prod.inject targetRootEntry.inject
      by blast
  qed
  then show ?case unfolding scanRoot.simps 3 set_scanDirectory by (simp add: Un_assoc)
qed

lemma distinct_scanRoot: "distinct epubs \<Longrightarrow> distinct (scanRoot tree epubs)"
  by (induction tree epubs rule: scanRoot.induct) (simp_all add: distinct_scanDirectory)

lemma distinct_getFilesInTargetDir: "distinct (getFilesInTargetDir w)"
  by (simp add: getFilesInTargetDir_def distinct_scanRoot)

lemma fileAt_InDirectory:
  "fileAt w (InDirectory d f) = Some i \<longleftrightarrow>
     (\<exists>es. map_of (targetTree w) d = Some (RootDirectory es) \<and> map_of es f = Some (RegularFile i))"
  by (auto simp: fileAt_def split: option.splits targetRootEntry.splits directoryEntry.splits)

lemma scan_complete:
  assumes "fileAt w (InDirectory d f) = Some i" and "endsWith f (js ''.epub'')"
  shows "d @ js ''/'' @ f \<in> set (getFilesInTargetDir w)"
proof -
  from assms(1) obtain es where d: "map_of (targetTree w) d = Some (RootDirectory es)"
    and f: "map_of es f = Some (RegularFile i)" by (auto simp: fileAt_InDirectory)
  from d have "(d, RootDirectory es) \<in> set (targetTree w)" by (rule map_of_SomeD)
  moreover from f have "(f, RegularFile i) \<in> set es" by (rule map_of_SomeD)
  ultimately show ?thesis using assms(2)
    unfolding getFilesInTargetDir_def set_scanRoot by force
qed

lemma scan_sound:
  assumes "wellFormedTarget w" and "p \<in> set (getFilesInTargetDir w)"
  shows "\<exists>d f i. p = d @ js ''/'' @ f \<and> validName d \<and> validName f
           \<and> fileAt w (InDirectory d f) = Some i \<and> endsWith f (js ''.epub'')"
proof -
  from assms(2) obtain d es f fl where p: "p = d @ js ''/'' @ f"
    and d: "(d, RootDirectory es) \<in> set (targetTree w)" and f: "(f, fl) \<in> set es"
    and r: "fl \<noteq> Subdirectory" and e: "endsWith f (js ''.epub'')"
    unfolding getFilesInTargetDir_def set_scanRoot by auto
  from r obtain i where i: "fl = RegularFile i" by (cases fl) auto
  from assms(1) have "distinct (map fst (targetTree w))" by (simp add: wellFormedTarget_def)
  with d have md: "map_of (targetTree w) d = Some (RootDirectory es)" by simp
  from wellFormed_entry[OF assms(1) md] have vd: "validName d" and ves: "validDirectory es"
    by simp_all
  from ves f i have mf: "map_of es f = Some (RegularFile i)" by (simp add: validDirectory_def)
  from ves f have vf: "validName f" by (auto simp: validDirectory_def list_all_iff)
  from md mf have "fileAt w (InDirectory d f) = Some i" by (auto simp: fileAt_InDirectory)
  with p vd vf e show ?thesis by blast
qed

lemma scan_validRelative:
  assumes "wellFormedTarget w" and "p \<in> set (getFilesInTargetDir w)"
  shows "validRelative p"
  using scan_sound[OF assms] by (auto simp: validRelative_iff)

subsection \<open>The source entries\<close>

lemma readBookFolder_source:
  assumes "(s, m) \<in> set (readBookFolder path files)"
  shows "s \<in> fst ` set (bookFolderFiles path files)"
proof (cases "find (\<lambda>(fileName, file). isSourceFile file \<and> endsWith fileName (js ''.epub'')) files")
  case None
  with assms show ?thesis by (simp add: readBookFolder_def)
next
  case (Some a)
  obtain epubName epubFile where a: "a = (epubName, epubFile)" by (cases a)
  from Some a have
    fnd: "find (\<lambda>(fileName, file). isSourceFile file \<and> endsWith fileName (js ''.epub'')) files
          = Some (epubName, epubFile)" by simp
  from assms have s: "s = path @ js ''/'' @ epubName"
    unfolding readBookFolder_def fnd
    by (auto split: option.splits prod.splits bookFolderEntry.splits sum.splits)
  from find_SomeD[OF fnd] have "isSourceFile epubFile" and mem: "(epubName, epubFile) \<in> set files"
    by auto
  then obtain i c where "epubFile = SourceFile i c" by (cases epubFile) auto
  with mem s have "(s, i) \<in> set (bookFolderFiles path files)"
    by (force simp: bookFolderFiles_def)
  then show ?thesis by force
qed

lemma readAuthorFolder_source:
  assumes "(s, m) \<in> set (readAuthorFolder path folders)"
  shows "s \<in> fst ` set (authorFolderFiles path folders)"
proof -
  from assms obtain bookName bookFiles where
    mem: "(bookName, BookFolder bookFiles) \<in> set folders"
    and r: "(s, m) \<in> set (readBookFolder (path @ js ''/'' @ bookName) bookFiles)"
    by (auto simp: readAuthorFolder_def split: authorFolderEntry.splits)
  from readBookFolder_source[OF r] obtain i where
    "(s, i) \<in> set (bookFolderFiles (path @ js ''/'' @ bookName) bookFiles)" by auto
  with mem have "(s, i) \<in> set (authorFolderFiles path folders)"
    by (force simp: authorFolderFiles_def)
  then show ?thesis by force
qed

lemma readSourceFiles_valid: "\<forall>(s, m)\<in>set (readSourceFiles w). validSource w s"
proof (intro ballI, clarify)
  fix s m
  assume "(s, m) \<in> set (readSourceFiles w)"
  then obtain authorName folders where
    mem: "(authorName, AuthorFolder folders) \<in> set (sourceTree w)"
    and r: "(s, m) \<in> set (readAuthorFolder (inDir w @ js ''/'' @ authorName) folders)"
    by (auto simp: readSourceFiles_def split: sourceRootEntry.splits)
  from readAuthorFolder_source[OF r] obtain i where
    "(s, i) \<in> set (authorFolderFiles (inDir w @ js ''/'' @ authorName) folders)" by auto
  with mem have "(s, i) \<in> set (sourceInodes w)" by (force simp: sourceInodes_def)
  then have "s \<in> fst ` set (sourceInodes w)" by force
  then show "validSource w s" by (simp add: validSource_def map_of_eq_None_iff)
qed

subsection \<open>Links from outside of the target tree\<close>

lemma linkedFromOutside_invariant:
  assumes "linkedFromOutside w"
  shows "outsideInvariant w"
  unfolding outsideInvariant_def
proof (intro allI impI)
  fix l i
  assume e: "entryAt w l = Some (FileEntry i)" and n: "2 \<le> nlinkOf w i"
  show "1 \<le> outsideLinks w i"
  proof (cases l)
    case TargetRoot
    with e show ?thesis by simp
  next
    case (RootLevel x)
    with e have "map_of (targetTree w) x = Some (RootFile i)"
      by (auto split: option.splits targetRootEntry.splits)
    then have "(x, RootFile i) \<in> set (targetTree w)" by (rule map_of_SomeD)
    with assms have "nlinkOf w i < 2 \<or> 1 \<le> outsideLinks w i"
      by (auto simp: linkedFromOutside_def list_all_iff)
    with n show ?thesis by simp
  next
    case (InDirectory d f)
    with e obtain es where "map_of (targetTree w) d = Some (RootDirectory es)"
      and "map_of es f = Some (RegularFile i)"
      by (auto split: option.splits targetRootEntry.splits directoryEntry.splits)
    then have "(d, RootDirectory es) \<in> set (targetTree w)" and "(f, RegularFile i) \<in> set es"
      by (auto dest: map_of_SomeD)
    with assms have "nlinkOf w i < 2 \<or> 1 \<le> outsideLinks w i"
      by (fastforce simp: linkedFromOutside_def list_all_iff)
    with n show ?thesis by simp
  qed
qed

subsection \<open>One pass\<close>

lemma syncFiles_unfold:
  "syncFiles w =
     pruneAll (fst (linkAll (readSourceFiles w) (getFilesInTargetDir w) w))
       (snd (linkAll (readSourceFiles w) (getFilesInTargetDir w) w))"
  by (simp add: syncFiles_def Let_def split: prod.splits)

lemma fileAt_validNames:
  assumes "wellFormedTarget w" and "fileAt w (InDirectory d f) = Some i"
  shows "validName d \<and> validName f"
proof -
  from assms(2) obtain es where d: "map_of (targetTree w) d = Some (RootDirectory es)"
    and f: "map_of es f = Some (RegularFile i)" by (auto simp: fileAt_InDirectory)
  from wellFormed_entry[OF assms(1) d] have vd: "validName d" and ves: "validDirectory es"
    by simp_all
  from f have "(f, RegularFile i) \<in> set es" by (rule map_of_SomeD)
  with ves have "validName f" by (auto simp: validDirectory_def list_all_iff)
  with vd show ?thesis by simp
qed

lemma fileAt_not_blocked: "fileAt w (InDirectory d f) = Some i \<Longrightarrow> \<not> blocked w d"
  by (auto simp: fileAt_InDirectory blocked_def)

lemma locationOf_directory:
  "locationOf md = InDirectory d f \<Longrightarrow> fst (calculateTargetPath md) = d"
  by (cases "calculateTargetPath md") (auto simp: locationOf_def targetLocation_def split: if_splits)

lemma settled_same_entry:
  assumes "entryAt w' l = entryAt w l" and "sameSetting w w'"
  shows "settled w' l = settled w l"
  using assms(1) sameSetting_outsideLinks[OF assms(2)]
  by (simp add: settled_def split: option.splits entryKind.splits)

lemma blocked_same_entry:
  assumes "entryAt w' (RootLevel d) = entryAt w (RootLevel d)"
  shows "blocked w' d = blocked w d"
  using assms by (simp add: blocked_def)

lemma relativeLocation_not_root: "validRelative u \<Longrightarrow> relativeLocation u \<noteq> RootLevel x"
  by (auto simp: validRelative_iff relativeLocation_eq)

lemma root_not_pruned:
  assumes "\<forall>u\<in>set us. validRelative u"
  shows "RootLevel x \<notin> relativeLocation ` set us"
proof
  assume "RootLevel x \<in> relativeLocation ` set us"
  then obtain u where "u \<in> set us" and e: "RootLevel x = relativeLocation u" by auto
  with assms have "validRelative u" by simp
  from relativeLocation_not_root[OF this, of x] e show False by simp
qed

lemma path_not_pruned:
  assumes "\<forall>u\<in>set us. validRelative u" and "validRelative p" and "p \<notin> set us"
  shows "relativeLocation p \<notin> relativeLocation ` set us"
proof
  assume "relativeLocation p \<in> relativeLocation ` set us"
  then obtain u where u: "u \<in> set us" and e: "relativeLocation p = relativeLocation u" by auto
  from assms(1) u have "validRelative u" by simp
  from relativeLocation_inj[OF assms(2) this e] u assms(3) show False by simp
qed

lemma location_not_pruned:
  assumes "\<forall>u\<in>set us. validRelative u" and "relativePathOf md \<notin> set us"
  shows "locationOf md \<notin> relativeLocation ` set us"
proof
  assume "locationOf md \<in> relativeLocation ` set us"
  then obtain u where u: "u \<in> set us" and e: "locationOf md = relativeLocation u" by auto
  from assms(1) u obtain d f where uf: "u = d @ js ''/'' @ f" and "validName d" and "validName f"
    by (auto simp: validRelative_iff)
  with e have "locationOf md = InDirectory d f" by (simp add: relativeLocation_eq)
  from location_relativePathOf[OF this] uf u assms(2) show False by simp
qed

text \<open>The state between the two loops of a pass, and the state after the pass.\<close>

lemma pass_facts:
  assumes wf: "wellFormedTarget w" and safe: "regular w"
  shows "sameSetting w (snd (linkAll (readSourceFiles w) (getFilesInTargetDir w) w))
     \<and> regular (snd (linkAll (readSourceFiles w) (getFilesInTargetDir w) w))
     \<and> wellFormedTarget (snd (linkAll (readSourceFiles w) (getFilesInTargetDir w) w))
     \<and> (\<forall>u\<in>set (fst (linkAll (readSourceFiles w) (getFilesInTargetDir w) w)). validRelative u)
     \<and> sameSetting w (syncFiles w) \<and> regular (syncFiles w) \<and> wellFormedTarget (syncFiles w)"
proof -
  let ?A = "linkAll (readSourceFiles w) (getFilesInTargetDir w) w"
  note basic = linkAll_basic[OF safe readSourceFiles_valid, of "getFilesInTargetDir w"]
  from basic have s: "sameSetting w (snd ?A)" by simp
  from sameSetting_regular[OF s] safe have sf: "regular (snd ?A)" by simp
  from basic wf have w': "wellFormedTarget (snd ?A)" by simp
  from basic have "set (fst ?A) \<subseteq> set (getFilesInTargetDir w)" by simp
  with scan_validRelative[OF wf] have v: "\<forall>u\<in>set (fst ?A). validRelative u" by blast
  note prune = pruneAll_effect[OF sf v]
  from prune have "sameSetting (snd ?A) (pruneAll (fst ?A) (snd ?A))" by simp
  from sameSetting_trans[OF s this] have s1: "sameSetting w (syncFiles w)"
    by (simp add: syncFiles_unfold)
  from sameSetting_regular[OF s1] safe have sf1: "regular (syncFiles w)" by simp
  from prune w' have "wellFormedTarget (syncFiles w)" by (simp add: syncFiles_unfold)
  with s sf w' v s1 sf1 show ?thesis by simp
qed


text \<open>A file that a source entry corresponds to is there after the pass.\<close>

lemma syncFiles_keeps_matched:
  assumes wf: "wellFormedTarget w" and safe: "regular w"
    and present: "fileAt w (InDirectory d f) = Some i"
    and entry: "(s, m) \<in> set (readSourceFiles w)" and matched: "correspondsTo m (d @ js ''/'' @ f)"
  shows "fileAt (syncFiles w) (InDirectory d f) \<noteq> None"
proof -
  let ?A = "linkAll (readSourceFiles w) (getFilesInTargetDir w) w"
  let ?p = "d @ js ''/'' @ f"
  note facts = pass_facts[OF wf safe]
  from facts have sf: "regular (snd ?A)" and v: "\<forall>u\<in>set (fst ?A). validRelative u" by simp_all
  from fileAt_validNames[OF wf present] have vd: "validName d" and vf: "validName f" by simp_all
  then have vp: "validRelative ?p" by (auto simp: validRelative_iff)
  from matched have t: "hasTitle m" and r: "relativePathOf m = ?p" by (simp_all add: correspondsTo_def)
  from relativePathOf_location[OF vp r] vd vf have l: "locationOf m = InDirectory d f"
    by (simp add: relativeLocation_eq)
  from present have p0: "fileAt w (InDirectory d f) \<noteq> None" by simp
  from linkAll_presence[OF safe readSourceFiles_valid p0]
  have p1: "fileAt (snd ?A) (InDirectory d f) \<noteq> None" .
  from p0 l have "fileAt w (locationOf m) \<noteq> None" by simp
  from linkAll_reconfirmed[OF safe readSourceFiles_valid entry t this] r
  have "?p \<notin> set (fst ?A)" by simp
  from path_not_pruned[OF v vp this] vd vf
  have "InDirectory d f \<notin> relativeLocation ` set (fst ?A)" by (simp add: relativeLocation_eq)
  with pruneAll_effect[OF sf v]
  have "entryAt (pruneAll (fst ?A) (snd ?A)) (InDirectory d f) = entryAt (snd ?A) (InDirectory d f)"
    by blast
  from fileAt_from_entryAt[OF this] p1 show ?thesis by (simp add: syncFiles_unfold)
qed







text \<open>A file whose name does not end in \<^verbatim>\<open>.epub\<close> is left as it is.\<close>

lemma endsWith_append: "endsWith (x @ p) p"
  by (simp add: endsWith_def)

lemma endsWith_append2: "endsWith (x @ y @ p) p"
  using endsWith_append[of "x @ y" p] by simp





subsection \<open>A second pass\<close>

text \<open>
  After a pass from a state in which every file of the target tree with two or more links
  has a link from outside, every source entry with a title has its directory blocked, or
  its location settled or a directory, and every scanned file is the target of such an
  entry.
\<close>

lemma syncFiles_settles:
  assumes wf: "wellFormedTarget w" and safe: "regular w" and inv: "outsideInvariant w"
  shows "\<forall>(s, m)\<in>set (readSourceFiles w). hasTitle m \<longrightarrow>
           blocked (syncFiles w) (fst (calculateTargetPath m))
           \<or> settled (syncFiles w) (locationOf m)
           \<or> entryAt (syncFiles w) (locationOf m) = Some DirectoryEntry"
proof -
  have "blocked (syncFiles w) (fst (calculateTargetPath m))"
    if mem: "(s, m) \<in> set (readSourceFiles w)" and t: "hasTitle m"
    and nb: "\<not> settled (syncFiles w) (locationOf m)"
    and nd: "entryAt (syncFiles w) (locationOf m) \<noteq> Some DirectoryEntry" for s m
  proof -
  let ?A = "linkAll (readSourceFiles w) (getFilesInTargetDir w) w"
  note facts = pass_facts[OF wf safe]
  from facts have sf: "regular (snd ?A)" and v: "\<forall>u\<in>set (fst ?A). validRelative u" by simp_all
  note prune = pruneAll_effect[OF sf v]
  from prune have same: "sameSetting (snd ?A) (syncFiles w)" by (simp add: syncFiles_unfold)
  note dirs = prune[THEN conjunct2, THEN conjunct2, THEN conjunct2, THEN conjunct2,
      THEN conjunct2, THEN conjunct2]
  from linkAll_settles[OF safe readSourceFiles_valid inv, of "getFilesInTargetDir w"] mem t
  have c: "blocked (snd ?A) (fst (calculateTargetPath m))
      \<or> (settled (snd ?A) (locationOf m) \<and> relativePathOf m \<notin> set (fst ?A))
      \<or> entryAt (snd ?A) (locationOf m) = Some DirectoryEntry" by auto
  have 1: "\<not> (settled (snd ?A) (locationOf m) \<and> relativePathOf m \<notin> set (fst ?A))"
  proof
    assume a: "settled (snd ?A) (locationOf m) \<and> relativePathOf m \<notin> set (fst ?A)"
    then have "relativePathOf m \<notin> set (fst ?A)" by simp
    from prune location_not_pruned[OF v this]
    have "entryAt (syncFiles w) (locationOf m) = entryAt (snd ?A) (locationOf m)"
      unfolding syncFiles_unfold by blast
    from settled_same_entry[OF this same] a nb show False by simp
  qed
  have 2: "entryAt (snd ?A) (locationOf m) \<noteq> Some DirectoryEntry"
  proof
    assume a: "entryAt (snd ?A) (locationOf m) = Some DirectoryEntry"
    from dirs have "entryAt (snd ?A) (locationOf m) = Some DirectoryEntry
        \<longrightarrow> entryAt (pruneAll (fst ?A) (snd ?A)) (locationOf m) = Some DirectoryEntry"
      by (rule spec)
    with a nd show False by (simp add: syncFiles_unfold)
  qed
  from c 1 2 have b: "blocked (snd ?A) (fst (calculateTargetPath m))" by blast
  from prune root_not_pruned[OF v, of "fst (calculateTargetPath m)"]
  have "entryAt (syncFiles w) (RootLevel (fst (calculateTargetPath m)))
      = entryAt (snd ?A) (RootLevel (fst (calculateTargetPath m)))"
    unfolding syncFiles_unfold by blast
  from blocked_same_entry[OF this] b
  show "blocked (syncFiles w) (fst (calculateTargetPath m))" by simp
  qed
  then show ?thesis by blast
qed

lemma syncFiles_scanned_matched:
  assumes wf: "wellFormedTarget w" and safe: "regular w"
    and p: "p \<in> set (getFilesInTargetDir (syncFiles w))"
  shows "\<exists>(s, m)\<in>set (readSourceFiles w). hasTitle m \<and> relativePathOf m = p
           \<and> fileAt (syncFiles w) (locationOf m) \<noteq> None
           \<and> \<not> blocked (syncFiles w) (fst (calculateTargetPath m))"
proof -
  let ?A = "linkAll (readSourceFiles w) (getFilesInTargetDir w) w"
  note facts = pass_facts[OF wf safe]
  from facts have sf: "regular (snd ?A)" and v: "\<forall>u\<in>set (fst ?A). validRelative u"
    and wf1: "wellFormedTarget (syncFiles w)" by simp_all
  note prune = pruneAll_effect[OF sf v]
  from scan_sound[OF wf1 p] obtain d f i where pd: "p = d @ js ''/'' @ f"
    and vd: "validName d" and vf: "validName f"
    and f1: "fileAt (syncFiles w) (InDirectory d f) = Some i"
    and epub: "endsWith f (js ''.epub'')" by blast
  from vd vf pd have vp: "validRelative p" by (auto simp: validRelative_iff)
  from vd vf pd have lp: "relativeLocation p = InDirectory d f" by (simp add: relativeLocation_eq)
  note mono = prune[THEN conjunct2, THEN conjunct2, THEN conjunct1]
  from mono have "fileAt (syncFiles w) (InDirectory d f) = fileAt (snd ?A) (InDirectory d f)
      \<or> fileAt (syncFiles w) (InDirectory d f) = None"
    unfolding syncFiles_unfold by (rule spec)
  with f1 have fa: "fileAt (snd ?A) (InDirectory d f) = Some i" by simp
  have np: "p \<notin> set (fst ?A)"
  proof
    assume "p \<in> set (fst ?A)"
    with prune have "fileAt (syncFiles w) (relativeLocation p) = None"
      unfolding syncFiles_unfold by blast
    with lp f1 show False by simp
  qed
  have "\<exists>(s, m)\<in>set (readSourceFiles w). hasTitle m \<and> relativePathOf m = p"
  proof (cases "p \<in> set (getFilesInTargetDir w)")
    case True
    from linkAll_removed[OF safe readSourceFiles_valid True np]
    show ?thesis by (simp add: correspondsTo_def)
  next
    case False
    have "fileAt w (InDirectory d f) = None"
    proof (cases "fileAt w (InDirectory d f)")
      case None
      then show ?thesis .
    next
      case (Some j)
      from scan_complete[OF Some epub] pd False show ?thesis by simp
    qed
    with fa have "fileAt (snd ?A) (InDirectory d f) \<noteq> fileAt w (InDirectory d f)" by simp
    from linkAll_created[OF safe readSourceFiles_valid this]
    obtain s m where mem: "(s, m) \<in> set (readSourceFiles w)" and t: "hasTitle m"
      and l: "locationOf m = InDirectory d f" by auto
    from location_relativePathOf[OF l] pd have "relativePathOf m = p" by simp
    with mem t show ?thesis by auto
  qed
  then obtain s m where mem: "(s, m) \<in> set (readSourceFiles w)" and t: "hasTitle m"
    and r: "relativePathOf m = p" by auto
  from relativePathOf_location[OF vp r] lp have l: "locationOf m = InDirectory d f" by simp
  from locationOf_directory[OF l] fileAt_not_blocked[OF f1]
  have "\<not> blocked (syncFiles w) (fst (calculateTargetPath m))" by simp
  moreover from l f1 have "fileAt (syncFiles w) (locationOf m) \<noteq> None" by simp
  ultimately show ?thesis using mem t r by auto
qed

text \<open>The pass after such a pass makes and removes no link.\<close>

lemma syncFiles_second_pass:
  assumes wf: "wellFormedTarget w" and safe: "regular w" and inv: "outsideInvariant w"
  shows "quietly (syncFiles w) (syncFiles (syncFiles w))"
proof -
  let ?w1 = "syncFiles w"
  let ?B = "linkAll (readSourceFiles ?w1) (getFilesInTargetDir ?w1) ?w1"
  note facts = pass_facts[OF wf safe]
  from facts have same: "sameSetting w ?w1" and safe1: "regular ?w1" by simp_all
  from sameSetting_readSourceFiles[OF same] have es: "readSourceFiles ?w1 = readSourceFiles w" .
  from syncFiles_settles[OF wf safe inv] es
  have st: "\<forall>(s, m)\<in>set (readSourceFiles ?w1). hasTitle m \<longrightarrow>
           blocked ?w1 (fst (calculateTargetPath m)) \<or> settled ?w1 (locationOf m)
           \<or> entryAt ?w1 (locationOf m) = Some DirectoryEntry" by simp
  note quiet = linkAll_quiet[OF safe1 readSourceFiles_valid st, of "getFilesInTargetDir ?w1"]
  from linkAll_basic[OF safe1 readSourceFiles_valid, of "getFilesInTargetDir ?w1"]
  have sub: "set (fst ?B) \<subseteq> set (getFilesInTargetDir ?w1)" by simp
  have "fst ?B = []"
  proof (cases "fst ?B")
    case Nil
    then show ?thesis .
  next
    case (Cons p ps)
    then have p: "p \<in> set (fst ?B)" by simp
    with sub have "p \<in> set (getFilesInTargetDir ?w1)" by blast
    from syncFiles_scanned_matched[OF wf safe this] es
    obtain s m where mem: "(s, m) \<in> set (readSourceFiles ?w1)" and t: "hasTitle m"
      and r: "relativePathOf m = p" and f: "fileAt ?w1 (locationOf m) \<noteq> None"
      and nb: "\<not> blocked ?w1 (fst (calculateTargetPath m))" by auto
    from f have "entryAt ?w1 (locationOf m) \<noteq> Some DirectoryEntry"
      by (auto simp: fileAt_directory)
    with st mem t nb have "settled ?w1 (locationOf m)" by auto
    with quiet mem t r p show ?thesis by auto
  qed
  then have "syncFiles ?w1 = snd ?B" by (simp add: syncFiles_unfold[of ?w1])
  with quiet show ?thesis by simp
qed

lemma quietly_performed:
  assumes "quietly w w'"
  shows "targetTree w' = targetTree w
     \<and> (\<exists>cs. calls w' = calls w @ cs \<and> filter performed cs = [])"
  using assms by (auto simp: quietly_def)

subsection \<open>The example worlds\<close>

lemmas world_evaluation =
  exampleWorld_def exampleBookFolder_def examplePackage_def exampleBook_def

lemmas source_evaluation =
  readSourceFiles_def readAuthorFolder_def readBookFolder_def parseOpf_def findOpt_def
  firstOpt_def orElse_def endsWith_def sourceInodes_def authorFolderFiles_def
  bookFolderFiles_def

lemmas call_evaluation =
  mkdir_def stat_def safeUnlink_def unlink_def createLink_def link_def resolve_def
  pathNames_def startsWith_def nlinkOf_def targetLinks_def sourceLinks_def outsideLinks_def
  directoryLinks_def failure_def success_def unusedFilePath_def piece_def

lemma hasTitle_exampleBook: "hasTitle (exampleBook (js ''A''))"
  by (simp add: hasTitle_def exampleBook_def js_def)

lemma calculateTargetPath_exampleBook:
  "calculateTargetPath (exampleBook (js ''A'')) = (js ''A - B'', js ''A - B.epub'')"
  by (simp add: exampleBook_def evaluation)

lemma hasTitle_exampleSeriesBook: "hasTitle exampleSeriesBook"
  by (simp add: hasTitle_def exampleSeriesBook_def js_def)

lemma calculateTargetPath_exampleSeriesBook:
  "calculateTargetPath exampleSeriesBook = ([], js '' - 01.epub'')"
  by (simp add: exampleSeriesBook_def evaluation)

text \<open>The library whose one book maps to the root of the target tree.\<close>

lemma readSourceFiles_exampleRootTarget:
  "readSourceFiles exampleRootTarget = [(js ''/in/B/A (1)/A.epub'', exampleSeriesBook)]"
  by (simp add: exampleRootTarget_def exampleSeriesPackage_def exampleSeriesBook_def
      world_evaluation source_evaluation js_def Let_def)

lemma getFilesInTargetDir_exampleRootTarget: "getFilesInTargetDir exampleRootTarget = []"
  by (simp add: exampleRootTarget_def world_evaluation getFilesInTargetDir_def)

lemma linkFile_exampleRootTarget:
  "linkFile (js ''/in/B/A (1)/A.epub'') exampleSeriesBook exampleRootTarget =
     (Some (js ''/ - 01.epub''),
      exampleRootTarget\<lparr>targetTree := [(js '' - 01.epub'', RootFile 11)],
        calls := [(Mkdir (js ''/out/''), None), (Unlink (js ''/out// - 01.epub''), None),
                  (Link (js ''/in/B/A (1)/A.epub'') (js ''/out// - 01.epub''), None)]\<rparr>)"
  unfolding linkFile_unfold[OF hasTitle_exampleSeriesBook calculateTargetPath_exampleSeriesBook]
  by (simp add: call_evaluation source_evaluation exampleRootTarget_def world_evaluation js_def
      Let_def)

lemma syncFiles_exampleRootTarget:
  "syncFiles exampleRootTarget =
     exampleRootTarget\<lparr>targetTree := [(js '' - 01.epub'', RootFile 11)],
        calls := [(Mkdir (js ''/out/''), None), (Unlink (js ''/out// - 01.epub''), None),
                  (Link (js ''/in/B/A (1)/A.epub'') (js ''/out// - 01.epub''), None)]\<rparr>"
  unfolding syncFiles_def readSourceFiles_exampleRootTarget getFilesInTargetDir_exampleRootTarget
  by (simp add: linkFile_exampleRootTarget)






text \<open>The library with two links to a foreign inode in the target tree: two passes.\<close>

lemma readSourceFiles_exampleSharedInode:
  "readSourceFiles exampleSharedInode = [(js ''/in/B/A (1)/A.epub'', exampleBook (js ''A''))]"
  by (simp add: exampleSharedInode_def world_evaluation source_evaluation js_def Let_def)

lemma getFilesInTargetDir_exampleSharedInode:
  "getFilesInTargetDir exampleSharedInode = [js ''A - B/A - B.epub'', js ''A - B/Z.epub'']"
  by (simp add: exampleSharedInode_def world_evaluation getFilesInTargetDir_def setAdd_def
      endsWith_def js_def)

lemma linkFile_exampleSharedInode:
  "linkFile (js ''/in/B/A (1)/A.epub'') (exampleBook (js ''A'')) exampleSharedInode =
     (Some (js ''A - B/A - B.epub''), exampleSharedInode\<lparr>calls := [(Mkdir (js ''/out/A - B''), None)]\<rparr>)"
  unfolding linkFile_unfold[OF hasTitle_exampleBook calculateTargetPath_exampleBook]
  by (simp add: call_evaluation source_evaluation exampleSharedInode_def world_evaluation js_def
      Let_def)

lemma pruneAll_exampleSharedInode:
  "pruneAll [js ''A - B/Z.epub''] (exampleSharedInode\<lparr>calls := [(Mkdir (js ''/out/A - B''), None)]\<rparr>) =
     exampleSharedInode\<lparr>targetTree := [(js ''A - B'', RootDirectory [(js ''A - B.epub'', RegularFile 7)])],
        calls := [(Mkdir (js ''/out/A - B''), None), (Unlink (js ''/out/A - B/Z.epub''), None)]\<rparr>"
  by (simp add: call_evaluation exampleSharedInode_def world_evaluation js_def Let_def)

lemma syncFiles_exampleSharedInode:
  "syncFiles exampleSharedInode =
     exampleSharedInode\<lparr>targetTree := [(js ''A - B'', RootDirectory [(js ''A - B.epub'', RegularFile 7)])],
        calls := [(Mkdir (js ''/out/A - B''), None), (Unlink (js ''/out/A - B/Z.epub''), None)]\<rparr>"
proof -
  have "js ''A - B/A - B.epub'' \<noteq> []" and "js ''A - B/A - B.epub'' \<noteq> js ''A - B/Z.epub''"
    by (simp_all add: js_def)
  then show ?thesis
    unfolding syncFiles_def readSourceFiles_exampleSharedInode
      getFilesInTargetDir_exampleSharedInode
    by (simp add: linkFile_exampleSharedInode setDelete_def pruneAll_exampleSharedInode
        del: pruneAll.simps)
qed

lemma readSourceFiles_exampleSharedInode_second:
  "readSourceFiles (exampleSharedInode\<lparr>targetTree := t, calls := c\<rparr>)
     = [(js ''/in/B/A (1)/A.epub'', exampleBook (js ''A''))]"
  by (simp add: exampleSharedInode_def world_evaluation source_evaluation js_def Let_def)

lemma getFilesInTargetDir_exampleSharedInode_second:
  "getFilesInTargetDir
     (exampleSharedInode\<lparr>targetTree := [(js ''A - B'', RootDirectory [(js ''A - B.epub'', RegularFile 7)])],
        calls := c\<rparr>) = [js ''A - B/A - B.epub'']"
  by (simp add: exampleSharedInode_def world_evaluation getFilesInTargetDir_def setAdd_def
      endsWith_def js_def)

lemma linkFile_exampleSharedInode_second:
  "linkFile (js ''/in/B/A (1)/A.epub'') (exampleBook (js ''A''))
     (exampleSharedInode\<lparr>targetTree := [(js ''A - B'', RootDirectory [(js ''A - B.epub'', RegularFile 7)])],
        calls := [(Mkdir (js ''/out/A - B''), None), (Unlink (js ''/out/A - B/Z.epub''), None)]\<rparr>) =
     (Some (js ''A - B/A - B.epub''),
      exampleSharedInode\<lparr>targetTree := [(js ''A - B'', RootDirectory [(js ''A - B.epub'', RegularFile 11)])],
        calls := [(Mkdir (js ''/out/A - B''), None), (Unlink (js ''/out/A - B/Z.epub''), None),
                  (Mkdir (js ''/out/A - B''), None), (Unlink (js ''/out/A - B/A - B.epub''), None),
                  (Link (js ''/in/B/A (1)/A.epub'') (js ''/out/A - B/A - B.epub''), None)]\<rparr>)"
  unfolding linkFile_unfold[OF hasTitle_exampleBook calculateTargetPath_exampleBook]
  by (simp add: call_evaluation source_evaluation exampleSharedInode_def world_evaluation js_def
      Let_def)

lemma syncFiles_exampleSharedInode_second:
  "syncFiles (syncFiles exampleSharedInode) =
     exampleSharedInode\<lparr>targetTree := [(js ''A - B'', RootDirectory [(js ''A - B.epub'', RegularFile 11)])],
        calls := [(Mkdir (js ''/out/A - B''), None), (Unlink (js ''/out/A - B/Z.epub''), None),
                  (Mkdir (js ''/out/A - B''), None), (Unlink (js ''/out/A - B/A - B.epub''), None),
                  (Link (js ''/in/B/A (1)/A.epub'') (js ''/out/A - B/A - B.epub''), None)]\<rparr>"
proof -
  have "js ''A - B/A - B.epub'' \<noteq> []" by (simp add: js_def)
  then show ?thesis
    unfolding syncFiles_exampleSharedInode
    unfolding syncFiles_def readSourceFiles_exampleSharedInode_second
      getFilesInTargetDir_exampleSharedInode_second
    by (simp add: linkFile_exampleSharedInode_second setDelete_def)
qed







section \<open>The synchronization: claims\<close>

text \<open>
  Claim C8. For every path with fewer than two separators, or beginning with a doubled
  separator, \<^verbatim>\<open>safeUnlink\<close> returns false and leaves the world as it is, the record
  of the calls included: nothing is thrown and no call is made. For every other path the
  outcome is the one of \<^verbatim>\<open>unlink\<close>: its error is the error of \<^verbatim>\<open>safeUnlink\<close>,
  and its success gives true.
\<close>

theorem safeUnlink_guard:
  "(length (filter (\<lambda>c. c = 47) filePath) < 2 \<or> startsWith filePath (js ''//'')
      \<longrightarrow> safeUnlink filePath w = (Inr False, w))
   \<and> (\<not> (length (filter (\<lambda>c. c = 47) filePath) < 2 \<or> startsWith filePath (js ''//''))
      \<longrightarrow> (\<forall>e w'. unlink filePath w = (Some e, w') \<longrightarrow> safeUnlink filePath w = (Inl e, w'))
        \<and> (\<forall>w'. unlink filePath w = (None, w') \<longrightarrow> safeUnlink filePath w = (Inr True, w')))"
proof (intro conjI impI allI)
  assume "length (filter (\<lambda>c. c = 47) filePath) < 2 \<or> startsWith filePath (js ''//'')"
  then show "safeUnlink filePath w = (Inr False, w)" by (simp add: safeUnlink_def)
next
  fix e w'
  assume "\<not> (length (filter (\<lambda>c. c = 47) filePath) < 2 \<or> startsWith filePath (js ''//''))"
    and "unlink filePath w = (Some e, w')"
  then show "safeUnlink filePath w = (Inl e, w')" by (simp add: safeUnlink_def)
next
  fix w'
  assume "\<not> (length (filter (\<lambda>c. c = 47) filePath) < 2 \<or> startsWith filePath (js ''//''))"
    and "unlink filePath w = (None, w')"
  then show "safeUnlink filePath w = (Inr True, w')" by (simp add: safeUnlink_def)
qed

lemma resolve_example_gone:
  "resolve exampleLibrary (js ''/out/Old/Gone.epub'') = Some (InDirectory (js ''Old'') (js ''Gone.epub''))"
  by (simp add: resolve_def exampleLibrary_def exampleWorld_def js_def startsWith_def pathNames_def Let_def)

theorem safeUnlink_guard_witness:
  "safeUnlink (js ''/root-file'') exampleLibrary = (Inr False, exampleLibrary)
   \<and> safeUnlink (js ''/out/Old/Gone.epub'') exampleLibrary =
       (Inl ENOENT, exampleLibrary\<lparr>calls := [(Unlink (js ''/out/Old/Gone.epub''), Some ENOENT)]\<rparr>)"
proof
  have "length (filter (\<lambda>c. c = 47) (js ''/root-file'')) < 2" by (simp add: js_def)
  with safeUnlink_guard[of "js ''/root-file''" exampleLibrary]
  show "safeUnlink (js ''/root-file'') exampleLibrary = (Inr False, exampleLibrary)" by blast
next
  have g: "\<not> (length (filter (\<lambda>c. c = 47) (js ''/out/Old/Gone.epub'')) < 2
      \<or> startsWith (js ''/out/Old/Gone.epub'') (js ''//''))"
    by (simp add: js_def startsWith_def)
  have u: "unlink (js ''/out/Old/Gone.epub'') exampleLibrary =
      (Some ENOENT, exampleLibrary\<lparr>calls := [(Unlink (js ''/out/Old/Gone.epub''), Some ENOENT)]\<rparr>)"
    unfolding unlink_def resolve_example_gone
    by (simp add: failure_def exampleLibrary_def exampleWorld_def js_def Let_def)
  from safeUnlink_guard[of "js ''/out/Old/Gone.epub''" exampleLibrary] g u
  show "safeUnlink (js ''/out/Old/Gone.epub'') exampleLibrary =
       (Inl ENOENT, exampleLibrary\<lparr>calls := [(Unlink (js ''/out/Old/Gone.epub''), Some ENOENT)]\<rparr>)" by blast
qed

text \<open>
  Claim C9. For every source entry whose metadata has no title, \<^verbatim>\<open>linkFile\<close>
  returns null and leaves the world as it is, the record of the calls included: no
  directory is made, no file removed and no link made.
\<close>

theorem linkFile_absent_title:
  "title metadata = None \<Longrightarrow> linkFile source metadata w = (None, w)"
  by (simp add: linkFile_def)

theorem linkFile_absent_title_witness:
  "title exampleUntitled = None
   \<and> linkFile (js ''/in/B/A (1)/A.epub'') exampleUntitled exampleLibrary = (None, exampleLibrary)
   \<and> calls exampleLibrary = []"
  using linkFile_absent_title[of exampleUntitled "js ''/in/B/A (1)/A.epub''" exampleLibrary]
  by (simp add: exampleUntitled_def exampleLibrary_def exampleWorld_def)

subsection \<open>The passes\<close>

lemma wellFormedTarget_exampleLibrary: "wellFormedTarget exampleLibrary"
  by (simp add: wellFormedTarget_def validDirectory_def validName_def exampleLibrary_def
      world_evaluation js_def)

lemma safeRoot_exampleLibrary: "safeRoot exampleLibrary"
  by (simp add: safeRoot_def startsWith_def exampleLibrary_def world_evaluation js_def)

lemma noFaults_exampleLibrary: "noFaults exampleLibrary"
  by (simp add: noFaults_def exampleLibrary_def world_evaluation)

lemma linkedFromOutside_exampleLibrary: "linkedFromOutside exampleLibrary"
  by (simp add: linkedFromOutside_def call_evaluation source_evaluation exampleLibrary_def
      world_evaluation js_def)






text \<open>
  Claim C2, as amended. Let the target tree be well formed, the target root one that
  \<^verbatim>\<open>safeUnlink\<close> does not refuse, let no call fail for a reason outside of the two
  trees, and let every file of the target tree with two or more links have a link from
  outside of the target tree. Then the second of two passes in a row leaves the target
  tree as the first left it, and none of its calls is a call of \<^verbatim>\<open>link\<close> or of
  \<^verbatim>\<open>unlink\<close> that succeeds: it makes no link and removes no file.
\<close>

theorem syncFiles_second_pass_quiet:
  assumes "wellFormedTarget w" and "safeRoot w" and "noFaults w" and "linkedFromOutside w"
  shows "targetTree (syncFiles (syncFiles w)) = targetTree (syncFiles w)
     \<and> (\<exists>cs. calls (syncFiles (syncFiles w)) = calls (syncFiles w) @ cs
            \<and> filter performed cs = [])"
proof -
  from assms(2,3) have "regular w" by (simp add: regular_def)
  from syncFiles_second_pass[OF assms(1) this linkedFromOutside_invariant[OF assms(4)]]
  show ?thesis by (rule quietly_performed)
qed

text \<open>The example library is such a state.\<close>

theorem syncFiles_second_pass_quiet_witness:
  "wellFormedTarget exampleLibrary \<and> safeRoot exampleLibrary \<and> noFaults exampleLibrary
   \<and> linkedFromOutside exampleLibrary
   \<and> targetTree (syncFiles (syncFiles exampleLibrary)) = targetTree (syncFiles exampleLibrary)
   \<and> (\<exists>cs. calls (syncFiles (syncFiles exampleLibrary)) = calls (syncFiles exampleLibrary) @ cs
          \<and> filter performed cs = [])"
  using syncFiles_second_pass_quiet[OF wellFormedTarget_exampleLibrary safeRoot_exampleLibrary
      noFaults_exampleLibrary linkedFromOutside_exampleLibrary]
    wellFormedTarget_exampleLibrary safeRoot_exampleLibrary noFaults_exampleLibrary
    linkedFromOutside_exampleLibrary
  by simp

text \<open>
  Claim C2 as stated fails where two files of the target tree are links to one inode
  without a link from outside. The first pass takes the file at the target of the book for
  a hard link of the book, its link count being two, and removes the other file; the second
  pass finds the link count one, removes the file and links the book: one removal and one
  new link, with the source tree unchanged and no call failing.
\<close>

theorem syncFiles_second_pass_relinks:
  "wellFormedTarget exampleSharedInode \<and> safeRoot exampleSharedInode
   \<and> noFaults exampleSharedInode
   \<and> sourceTree (syncFiles exampleSharedInode) = sourceTree exampleSharedInode
   \<and> calls (syncFiles exampleSharedInode)
       = [(Mkdir (js ''/out/A - B''), None), (Unlink (js ''/out/A - B/Z.epub''), None)]
   \<and> calls (syncFiles (syncFiles exampleSharedInode))
       = calls (syncFiles exampleSharedInode)
         @ [(Mkdir (js ''/out/A - B''), None), (Unlink (js ''/out/A - B/A - B.epub''), None),
            (Link (js ''/in/B/A (1)/A.epub'') (js ''/out/A - B/A - B.epub''), None)]
   \<and> fileAt (syncFiles exampleSharedInode) (InDirectory (js ''A - B'') (js ''A - B.epub'')) = Some 7
   \<and> fileAt (syncFiles (syncFiles exampleSharedInode)) (InDirectory (js ''A - B'') (js ''A - B.epub''))
       = Some 11"
proof -
  have "wellFormedTarget exampleSharedInode"
    by (simp add: wellFormedTarget_def validDirectory_def validName_def exampleSharedInode_def
        world_evaluation js_def)
  moreover have "safeRoot exampleSharedInode"
    by (simp add: safeRoot_def startsWith_def exampleSharedInode_def world_evaluation js_def)
  moreover have "noFaults exampleSharedInode"
    by (simp add: noFaults_def exampleSharedInode_def world_evaluation)
  moreover have "sourceTree (syncFiles exampleSharedInode) = sourceTree exampleSharedInode
   \<and> calls (syncFiles exampleSharedInode)
       = [(Mkdir (js ''/out/A - B''), None), (Unlink (js ''/out/A - B/Z.epub''), None)]
   \<and> calls (syncFiles (syncFiles exampleSharedInode))
       = calls (syncFiles exampleSharedInode)
         @ [(Mkdir (js ''/out/A - B''), None), (Unlink (js ''/out/A - B/A - B.epub''), None),
            (Link (js ''/in/B/A (1)/A.epub'') (js ''/out/A - B/A - B.epub''), None)]
   \<and> fileAt (syncFiles exampleSharedInode) (InDirectory (js ''A - B'') (js ''A - B.epub'')) = Some 7
   \<and> fileAt (syncFiles (syncFiles exampleSharedInode)) (InDirectory (js ''A - B'') (js ''A - B.epub''))
       = Some 11"
    unfolding syncFiles_exampleSharedInode_second
    unfolding syncFiles_exampleSharedInode
    by (simp add: fileAt_def exampleSharedInode_def world_evaluation js_def)
  ultimately show ?thesis by simp
qed




text \<open>
  The second loop and the target root. \<^verbatim>\<open>getFilesInTargetDir\<close> returns only paths of
  a directory name and a file name of a well-formed target tree, and the second loop of
  \<^verbatim>\<open>syncFiles\<close> leaves every entry at the target root as the first loop left it,
  whatever the target root is and whatever the outcomes of the calls are.
\<close>

lemma prune_spares_root:
  assumes "wellFormedTarget w"
  shows "(\<forall>p\<in>set (getFilesInTargetDir w). validRelative p)
     \<and> (\<forall>x. entryAt (syncFiles w) (RootLevel x)
             = entryAt (snd (linkAll (readSourceFiles w) (getFilesInTargetDir w) w)) (RootLevel x))"
proof (intro conjI allI ballI)
  fix p
  assume "p \<in> set (getFilesInTargetDir w)"
  from scan_validRelative[OF assms this] show "validRelative p" .
next
  fix x
  let ?A = "linkAll (readSourceFiles w) (getFilesInTargetDir w) w"
  from linkAll_subset[of "readSourceFiles w" "getFilesInTargetDir w" w] scan_validRelative[OF assms]
  have "\<forall>u\<in>set (fst ?A). validRelative u" by blast
  from pruneAll_root[OF this, of "snd ?A" x]
  show "entryAt (syncFiles w) (RootLevel x) = entryAt (snd ?A) (RootLevel x)"
    by (simp add: syncFiles_unfold)
qed

text \<open>
  Claim C10: no pass deletes a file located directly at the target root. The code breaks it
  where a series has no character of \<^verbatim>\<open>[a-zA-Z0-9 ]\<close>: \<^verbatim>\<open>calculateTargetPath\<close>
  tests the series for the empty string before it sanitizes it, and has no default for a
  series that is empty afterwards, as it has for the title and the creator. The directory
  it returns is empty, the target is a file at the target root, and \<^verbatim>\<open>linkFile\<close>
  removes the file it finds there with one link, to link the book in its place.
\<close>

theorem linkFile_replaces_root_file:
  "readSourceFiles exampleRootTarget = [(js ''/in/B/A (1)/A.epub'', exampleSeriesBook)]
   \<and> calculateTargetPath exampleSeriesBook = ([], js '' - 01.epub'')
   \<and> fileAt exampleRootTarget (RootLevel (js '' - 01.epub'')) = Some 5
   \<and> fileAt (syncFiles exampleRootTarget) (RootLevel (js '' - 01.epub'')) = Some 11
   \<and> calls (syncFiles exampleRootTarget)
       = [(Mkdir (js ''/out/''), None), (Unlink (js ''/out// - 01.epub''), None),
          (Link (js ''/in/B/A (1)/A.epub'') (js ''/out// - 01.epub''), None)]"
proof -
  have "fileAt exampleRootTarget (RootLevel (js '' - 01.epub'')) = Some 5"
    by (simp add: fileAt_def exampleRootTarget_def world_evaluation)
  moreover have "fileAt (syncFiles exampleRootTarget) (RootLevel (js '' - 01.epub'')) = Some 11"
    and "calls (syncFiles exampleRootTarget)
       = [(Mkdir (js ''/out/''), None), (Unlink (js ''/out// - 01.epub''), None),
          (Link (js ''/in/B/A (1)/A.epub'') (js ''/out// - 01.epub''), None)]"
    unfolding syncFiles_exampleRootTarget
    by (simp_all add: fileAt_def exampleRootTarget_def world_evaluation)
  ultimately show ?thesis
    using readSourceFiles_exampleRootTarget calculateTargetPath_exampleSeriesBook by simp
qed

end
